theory Spec2Isabelle
  imports Complex_Main "HOL-Library.Word" "HOL-Library.Log_Nat" "HOL-Library.Multiset"
begin

section \<open>Go run-time values\<close>

text \<open>
  The program is written in Go. A \<^verbatim>\<open>uint8\<close> is an 8-bit word whose arithmetic wraps
  around, an \<^verbatim>\<open>int\<close> is a 64-bit signed integer (written as a mathematical integer,
  with the wrap-around applied where a product is formed), and a run-time panic is a value
  of its own.
\<close>

type_synonym uint8 = "8 word"

datatype panic =
    IndexOutOfRange
  | DivideByZero
  | LenOutOfRange
  | SizeOutOfRange
  | CloseOfClosedChannel
  | NilDereference

definition wrap64 :: "int \<Rightarrow> int" where
  "wrap64 x = (x + 2 ^ 63) mod 2 ^ 64 - 2 ^ 63"

text \<open>Go's integer division truncates towards zero.\<close>

definition go_div :: "int \<Rightarrow> int \<Rightarrow> int" where
  "go_div a b = (if (a < 0) = (b < 0) then \<bar>a\<bar> div \<bar>b\<bar> else - (\<bar>a\<bar> div \<bar>b\<bar>))"

subsection \<open>float64\<close>

text \<open>
  A finite \<^verbatim>\<open>float64\<close> is the rational number it denotes. Every arithmetic operation
  of the source is the exact operation followed by \<open>fl64\<close>, the IEEE 754 rounding to the
  nearest double (53 significant bits, ties to the even significand, gradual underflow
  below \<open>2 powi - 1022\<close>). Infinities and NaN are not values of the model: a result beyond
  the largest double stays the finite number it is, which changes nothing after \<open>clamp\<close>.
\<close>

type_synonym float64 = rat

definition round_even :: "rat \<Rightarrow> int" where
  "round_even x = (let f = \<lfloor>x\<rfloor>; d = x - of_int f in
     if d < 1 / 2 then f else if 1 / 2 < d then f + 1 else if even f then f else f + 1)"

text \<open>\<open>expo x\<close> is the binary exponent of a positive \<open>x\<close>: \<open>2 powi expo x \<le> x < 2 powi (expo x + 1)\<close>.\<close>

definition expo :: "rat \<Rightarrow> int" where
  "expo x = (let (p, q) = quotient_of x; d = bitlen p - bitlen q in
     if 2 powi d \<le> x then d else d - 1)"

definition fl64 :: "rat \<Rightarrow> float64" where
  "fl64 x = (if x = 0 then 0 else
     let e = max (expo \<bar>x\<bar> - 52) (- 1074) in
       sgn x * of_int (round_even (\<bar>x\<bar> / 2 powi e)) * 2 powi e)"

definition fadd :: "float64 \<Rightarrow> float64 \<Rightarrow> float64" where
  "fadd a b = fl64 (a + b)"

definition fmul :: "float64 \<Rightarrow> float64 \<Rightarrow> float64" where
  "fmul a b = fl64 (a * b)"

definition fdiv :: "float64 \<Rightarrow> float64 \<Rightarrow> float64" where
  "fdiv a b = fl64 (a / b)"

text \<open>\<^verbatim>\<open>float64(c)\<close> of a byte is exact.\<close>

definition float64_of_uint8 :: "uint8 \<Rightarrow> float64" where
  "float64_of_uint8 c = of_nat (unat c)"

text \<open>
  Converting a float to an integer type discards the fraction (truncation towards zero).
  Where the truncated value is outside the range of \<^verbatim>\<open>int\<close>, the result of \<^verbatim>\<open>int(f)\<close> is left
  to the implementation; on amd64 it is the smallest \<^verbatim>\<open>int\<close>, which is the value taken here.
  \<^verbatim>\<open>uint8(f)\<close> is used by the source only on values between 0 and 255.
\<close>

definition truncate_float64 :: "float64 \<Rightarrow> int" where
  "truncate_float64 f = (if 0 \<le> f then \<lfloor>f\<rfloor> else \<lceil>f\<rceil>)"

definition int_of_float64 :: "float64 \<Rightarrow> int" where
  "int_of_float64 f =
     (let t = truncate_float64 f in if - (2 ^ 63) \<le> t \<and> t < 2 ^ 63 then t else - (2 ^ 63))"

definition uint8_of_float64 :: "float64 \<Rightarrow> uint8" where
  "uint8_of_float64 f = word_of_int (truncate_float64 f)"

section \<open>models\<close>

type_synonym FilterType = string

definition FilterGrayScale :: FilterType where "FilterGrayScale = ''grayscale''"
definition FilterBlur :: FilterType where "FilterBlur = ''blur''"
definition FilterBrightness :: FilterType where "FilterBrightness = ''brightness''"
definition FilterConstrast :: FilterType where "FilterConstrast = ''contrast''"

record FilterParams =
  BlurRadius :: float64
  Brightness :: float64
  Contrast :: float64
  Quality :: int

section \<open>filters.go\<close>

text \<open>\<^verbatim>\<open>clamp\<close>: \<^verbatim>\<open>math.Max(0, math.Min(255, value))\<close>.\<close>

definition clamp :: "float64 \<Rightarrow> float64" where
  "clamp v = max 0 (min 255 v)"

text \<open>
  The three per-pixel filters share one loop,
  \<^verbatim>\<open>for i := 0; i < len(src); i += 4\<close>, which reads \<^verbatim>\<open>src[i] .. src[i+3]\<close> and writes
  \<^verbatim>\<open>dst[i] .. dst[i+3]\<close>; an index beyond the slice panics.
\<close>

type_synonym pixel = "uint8 \<times> uint8 \<times> uint8 \<times> uint8"

definition pixelAt :: "uint8 list \<Rightarrow> nat \<Rightarrow> pixel option" where
  "pixelAt src i = (if i + 3 < length src
     then Some (src ! i, src ! (i + 1), src ! (i + 2), src ! (i + 3)) else None)"

definition setPixel :: "uint8 list \<Rightarrow> nat \<Rightarrow> pixel \<Rightarrow> uint8 list option" where
  "setPixel dst i p = (case p of (r, g, b, a) \<Rightarrow>
     if i + 3 < length dst
     then Some (dst[i := r, i + 1 := g, i + 2 := b, i + 3 := a]) else None)"

function pixelLoop :: "(pixel \<Rightarrow> pixel) \<Rightarrow> uint8 list \<Rightarrow> nat \<Rightarrow> uint8 list \<Rightarrow> panic + uint8 list" where
  "pixelLoop f src i dst =
     (if i < length src then
        (case pixelAt src i of
           None \<Rightarrow> Inl IndexOutOfRange
         | Some p \<Rightarrow>
            (case setPixel dst i (f p) of
               None \<Rightarrow> Inl IndexOutOfRange
             | Some dst' \<Rightarrow> pixelLoop f src (i + 4) dst'))
      else Inr dst)"
  by pat_completeness auto
termination
  by (relation "measure (\<lambda>(f, src, i, dst). length src - i)") auto

declare pixelLoop.simps [simp del]

text \<open>\<^verbatim>\<open>gray := uint8(0.299*r + 0.587*g + 0.114*b)\<close>, evaluated left to right in float64.\<close>

definition grayPixel :: "pixel \<Rightarrow> pixel" where
  "grayPixel p = (case p of (r, g, b, a) \<Rightarrow>
     let gray = uint8_of_float64
           (fadd (fadd (fmul (fl64 (299 / 1000)) (float64_of_uint8 r))
                       (fmul (fl64 (587 / 1000)) (float64_of_uint8 g)))
                 (fmul (fl64 (114 / 1000)) (float64_of_uint8 b)))
     in (gray, gray, gray, a))"

definition ApplyGrayScale :: "uint8 list \<Rightarrow> int \<Rightarrow> FilterParams \<Rightarrow> panic + uint8 list" where
  "ApplyGrayScale src width params =
     (if length src mod 4 \<noteq> 0 then Inr src
      else pixelLoop grayPixel src 0 (replicate (length src) 0))"

text \<open>\<^verbatim>\<open>r := clamp(float64(src[i]) * factor)\<close>, then \<^verbatim>\<open>uint8(r)\<close>.\<close>

definition brightnessPixel :: "float64 \<Rightarrow> pixel \<Rightarrow> pixel" where
  "brightnessPixel factor p = (case p of (r, g, b, a) \<Rightarrow>
     (uint8_of_float64 (clamp (fmul (float64_of_uint8 r) factor)),
      uint8_of_float64 (clamp (fmul (float64_of_uint8 g) factor)),
      uint8_of_float64 (clamp (fmul (float64_of_uint8 b) factor)),
      a))"

definition ApplyBrightness :: "uint8 list \<Rightarrow> int \<Rightarrow> FilterParams \<Rightarrow> panic + uint8 list" where
  "ApplyBrightness src width params =
     (if length src mod 4 \<noteq> 0 then Inr src
      else pixelLoop (brightnessPixel (Brightness params)) src 0 (replicate (length src) 0))"

text \<open>
  \<^verbatim>\<open>r := clamp((float64(src[i]-128) * factor) + 128)\<close>: the subtraction \<^verbatim>\<open>src[i]-128\<close> is
  between two \<^verbatim>\<open>uint8\<close> values and wraps around before the conversion to float64.
\<close>

definition contrastChannel :: "float64 \<Rightarrow> uint8 \<Rightarrow> uint8" where
  "contrastChannel factor c =
     uint8_of_float64 (clamp (fadd (fmul (float64_of_uint8 (c - 128)) factor) 128))"

definition contrastPixel :: "float64 \<Rightarrow> pixel \<Rightarrow> pixel" where
  "contrastPixel factor p = (case p of (r, g, b, a) \<Rightarrow>
     (contrastChannel factor r, contrastChannel factor g, contrastChannel factor b, a))"

definition ApplyContrast :: "uint8 list \<Rightarrow> int \<Rightarrow> FilterParams \<Rightarrow> panic + uint8 list" where
  "ApplyContrast src width params =
     (if length src mod 4 \<noteq> 0 then Inr src
      else pixelLoop (contrastPixel (Contrast params)) src 0 (replicate (length src) 0))"

text \<open>
  \<^verbatim>\<open>ApplyBlur\<close>. The window of pixel \<open>(x, y)\<close> is walked by
  \<^verbatim>\<open>for dy := -radius; dy <= radius; dy++ { for dx := -radius; dx <= radius; dx++ {\<close>
  and keeps the samples with \<^verbatim>\<open>nx >= 0 && nx < width && ny >= 0 && ny < height\<close>;
  \<open>blurWindow\<close> lists their offsets \<^verbatim>\<open>(ny*width + nx) * 4\<close> in that order.
\<close>

definition pixelAtI :: "uint8 list \<Rightarrow> int \<Rightarrow> pixel option" where
  "pixelAtI src idx = (if 0 \<le> idx then pixelAt src (nat idx) else None)"

definition blurWindow :: "int \<Rightarrow> int \<Rightarrow> int \<Rightarrow> int \<Rightarrow> int \<Rightarrow> int list" where
  "blurWindow width height radius x y =
     [wrap64 ((ny * width + nx) * 4).
        dy \<leftarrow> [- radius..radius], dx \<leftarrow> [- radius..radius],
        nx \<leftarrow> [x + dx], ny \<leftarrow> [y + dy],
        nx \<ge> 0 \<and> nx < width \<and> ny \<ge> 0 \<and> ny < height]"

type_synonym blurAcc = "float64 \<times> float64 \<times> float64 \<times> float64 \<times> int"

fun blurSum :: "uint8 list \<Rightarrow> int list \<Rightarrow> blurAcc \<Rightarrow> panic + blurAcc" where
  "blurSum src [] acc = Inr acc"
| "blurSum src (idx # rest) (r, g, b, a, cnt) =
     (case pixelAtI src idx of
        None \<Rightarrow> Inl IndexOutOfRange
      | Some (pr, pg, pb, pa) \<Rightarrow>
          blurSum src rest
            (fadd r (float64_of_uint8 pr), fadd g (float64_of_uint8 pg),
             fadd b (float64_of_uint8 pb), fadd a (float64_of_uint8 pa), cnt + 1))"

definition blurPixel :: "blurAcc \<Rightarrow> pixel" where
  "blurPixel acc = (case acc of (r, g, b, a, cnt) \<Rightarrow>
     let c = fl64 (of_int cnt) in
       (uint8_of_float64 (fdiv r c), uint8_of_float64 (fdiv g c),
        uint8_of_float64 (fdiv b c), uint8_of_float64 (fdiv a c)))"

fun blurLoop :: "uint8 list \<Rightarrow> int \<Rightarrow> int \<Rightarrow> int \<Rightarrow> (int \<times> int) list \<Rightarrow> uint8 list \<Rightarrow> panic + uint8 list" where
  "blurLoop src width height radius [] dst = Inr dst"
| "blurLoop src width height radius ((y, x) # rest) dst =
     (case blurSum src (blurWindow width height radius x y) (0, 0, 0, 0, 0) of
        Inl e \<Rightarrow> Inl e
      | Inr acc \<Rightarrow>
          if 0 < snd (snd (snd (snd acc))) then
            (let idx = wrap64 ((y * width + x) * 4) in
               if idx < 0 then Inl IndexOutOfRange
               else (case setPixel dst (nat idx) (blurPixel acc) of
                       None \<Rightarrow> Inl IndexOutOfRange
                     | Some dst' \<Rightarrow> blurLoop src width height radius rest dst'))
          else blurLoop src width height radius rest dst)"

definition ApplyBlur :: "uint8 list \<Rightarrow> int \<Rightarrow> FilterParams \<Rightarrow> panic + uint8 list" where
  "ApplyBlur src width params =
     (if length src mod 4 \<noteq> 0 then Inr src
      else if wrap64 (width * 4) = 0 then Inl DivideByZero
      else
        let height = go_div (int (length src)) (wrap64 (width * 4)) in
          if height \<le> 0 then Inr src
          else
            let radius = int_of_float64 (BlurRadius params) in
              if radius \<le> 0 then Inr src
              else blurLoop src width height radius
                     [(y, x). y \<leftarrow> [0..height - 1], x \<leftarrow> [0..width - 1]]
                     (replicate (length src) 0))"

type_synonym Filter = "uint8 list \<Rightarrow> int \<Rightarrow> FilterParams \<Rightarrow> panic + uint8 list"

definition FilterRegistry :: "FilterType \<Rightarrow> Filter option" where
  "FilterRegistry = map_of
     [(FilterBlur, ApplyBlur),
      (FilterBrightness, ApplyBrightness),
      (FilterConstrast, ApplyContrast),
      (FilterGrayScale, ApplyGrayScale)]"

subsection \<open>image.RGBA\<close>

text \<open>
  \<^verbatim>\<open>image.RGBA\<close> belongs to Go's standard library: a byte slice \<^verbatim>\<open>Pix\<close>, the
  distance \<^verbatim>\<open>Stride\<close> in bytes between two rows and the rectangle \<^verbatim>\<open>Rect\<close>. The pixel at
  \<open>(x, y)\<close> starts at \<^verbatim>\<open>(y-Rect.Min.Y)*Stride + (x-Rect.Min.X)*4\<close>; \<^verbatim>\<open>RGBAAt\<close> returns the
  zero colour and \<^verbatim>\<open>SetRGBA\<close> does nothing for a point outside \<^verbatim>\<open>Rect\<close>; both slice
  \<^verbatim>\<open>Pix[i : i+4]\<close>, which panics beyond the buffer.
\<close>

record Rectangle =
  MinX :: int
  MinY :: int
  MaxX :: int
  MaxY :: int

definition Dx :: "Rectangle \<Rightarrow> int" where "Dx r = MaxX r - MinX r"
definition Dy :: "Rectangle \<Rightarrow> int" where "Dy r = MaxY r - MinY r"

definition PointIn :: "int \<Rightarrow> int \<Rightarrow> Rectangle \<Rightarrow> bool" where
  "PointIn x y r = (MinX r \<le> x \<and> x < MaxX r \<and> MinY r \<le> y \<and> y < MaxY r)"

record RGBA =
  Pix :: "uint8 list"
  Stride :: int
  Rect :: Rectangle

definition PixOffset :: "RGBA \<Rightarrow> int \<Rightarrow> int \<Rightarrow> int" where
  "PixOffset p x y = (y - MinY (Rect p)) * Stride p + (x - MinX (Rect p)) * 4"

definition RGBAAt :: "RGBA \<Rightarrow> int \<Rightarrow> int \<Rightarrow> panic + pixel" where
  "RGBAAt p x y =
     (if \<not> PointIn x y (Rect p) then Inr (0, 0, 0, 0)
      else (case pixelAtI (Pix p) (PixOffset p x y) of
              None \<Rightarrow> Inl IndexOutOfRange
            | Some c \<Rightarrow> Inr c))"

definition SetRGBA :: "RGBA \<Rightarrow> int \<Rightarrow> int \<Rightarrow> pixel \<Rightarrow> panic + RGBA" where
  "SetRGBA p x y c =
     (if \<not> PointIn x y (Rect p) then Inr p
      else
        let i = PixOffset p x y in
          if i < 0 then Inl IndexOutOfRange
          else (case setPixel (Pix p) (nat i) c of
                  None \<Rightarrow> Inl IndexOutOfRange
                | Some pix' \<Rightarrow> Inr (p\<lparr>Pix := pix'\<rparr>)))"

text \<open>\<^verbatim>\<open>image.NewRGBA(r)\<close>: a zeroed buffer of \<open>4 * Dx r * Dy r\<close> bytes with \<open>Stride = 4 * Dx r\<close>.\<close>

definition NewRGBA :: "Rectangle \<Rightarrow> panic + RGBA" where
  "NewRGBA r =
     (if Dx r < 0 \<or> Dy r < 0 then Inl LenOutOfRange
      else Inr \<lparr>Pix = replicate (nat (4 * Dx r * Dy r)) 0, Stride = 4 * Dx r, Rect = r\<rparr>)"

text \<open>
  \<^verbatim>\<open>ExtractRowPixels\<close>: \<^verbatim>\<open>nil\<close> for a row outside the image, else the \<open>4 * width\<close>
  bytes of the row, read pixel by pixel with \<^verbatim>\<open>RGBAAt\<close>.
\<close>

fun extractLoop :: "RGBA \<Rightarrow> int \<Rightarrow> nat list \<Rightarrow> uint8 list \<Rightarrow> panic + uint8 list" where
  "extractLoop img y [] pixels = Inr pixels"
| "extractLoop img y (x # xs) pixels =
     (case RGBAAt img (MinX (Rect img) + int x) y of
        Inl e \<Rightarrow> Inl e
      | Inr c \<Rightarrow>
          (case setPixel pixels (x * 4) c of
             None \<Rightarrow> Inl IndexOutOfRange
           | Some pixels' \<Rightarrow> extractLoop img y xs pixels'))"

definition ExtractRowPixels :: "RGBA \<Rightarrow> int \<Rightarrow> panic + uint8 list option" where
  "ExtractRowPixels img row =
     (let bounds = Rect img; widht = Dx bounds in
        if row < 0 \<or> row \<ge> Dy bounds then Inr None
        else if widht * 4 < 0 then Inl LenOutOfRange
        else
          (case extractLoop img (MinY bounds + row) [0..<nat widht] (replicate (nat (widht * 4)) 0) of
             Inl e \<Rightarrow> Inl e
           | Inr pixels \<Rightarrow> Inr (Some pixels)))"

text \<open>
  \<^verbatim>\<open>SetRowPixels\<close>: nothing for a row outside the image or a slice whose length is not
  \<open>4 * width\<close>, else every pixel of the row is written with \<^verbatim>\<open>SetRGBA\<close>.
\<close>

fun setRowLoop :: "RGBA \<Rightarrow> int \<Rightarrow> uint8 list \<Rightarrow> nat list \<Rightarrow> panic + RGBA" where
  "setRowLoop img y pixels [] = Inr img"
| "setRowLoop img y pixels (x # xs) =
     (case pixelAt pixels (x * 4) of
        None \<Rightarrow> Inl IndexOutOfRange
      | Some c \<Rightarrow>
          (case SetRGBA img (MinX (Rect img) + int x) y c of
             Inl e \<Rightarrow> Inl e
           | Inr img' \<Rightarrow> setRowLoop img' y pixels xs))"

definition SetRowPixels :: "RGBA \<Rightarrow> int \<Rightarrow> uint8 list \<Rightarrow> panic + RGBA" where
  "SetRowPixels img row pixels =
     (let bounds = Rect img; width = Dx bounds in
        if row < 0 \<or> row \<ge> Dy bounds \<or> int (length pixels) \<noteq> width * 4 then Inr img
        else setRowLoop img (MinY bounds + row) pixels [0..<nat width])"

section \<open>models (jobs and results)\<close>

text \<open>
  Go's \<^verbatim>\<open>error\<close> values, as far as the program builds them: \<^verbatim>\<open>fmt.Errorf("...: %w", err)\<close>
  wraps the error it is given. \<open>ExternalError\<close> stands for an error of the operating system
  or of a codec, \<open>ContextError\<close> for \<^verbatim>\<open>ctx.Err()\<close>.
\<close>

datatype error =
    ExternalError string
  | ContextError
  | StatFailed error
  | FileTooLarge int int
  | LoadFailed error
  | ExtractFailed int
  | UnknownFilter FilterType
  | RowProcessingFailed error
  | SaveFailed error

record ImageJob =
  ID :: string
  InputPath :: string
  OutputPath :: string
  Filter :: FilterType
  Params :: FilterParams

record ImageMetadata =
  Width :: int
  Height :: int
  Format :: string
  OriginalSize :: int
  ProcessedSize :: int
  RowsProcessed :: int

text \<open>
  \<^verbatim>\<open>ProcessingResult\<close>; its fields \<^verbatim>\<open>InputPath\<close>, \<^verbatim>\<open>OutputPath\<close> and \<^verbatim>\<open>Error\<close> carry the
  prefix \<open>Res\<close> here, and the elapsed \<^verbatim>\<open>ProcessingTime\<close> is left out.
\<close>

record ProcessingResult =
  ResInputPath :: string
  ResOutputPath :: string
  ResError :: "error option"
  Metadata :: ImageMetadata

text \<open>\<^verbatim>\<open>RowJob\<close>, fields prefixed with \<open>Job\<close>.\<close>

record RowJob =
  JobImageID :: string
  JobRowIndex :: int
  JobPixels :: "uint8 list option"
  JobWidth :: int
  JobBounds :: Rectangle
  JobFilter :: FilterType
  JobParams :: FilterParams

text \<open>\<^verbatim>\<open>RowResult\<close>; a \<^verbatim>\<open>nil\<close> slice is \<open>None\<close>, the \<^verbatim>\<open>Duration\<close> is left out.\<close>

record RowResult =
  ImageID :: string
  RowIndex :: int
  Pixels :: "uint8 list option"
  RowError :: "error option"

section \<open>worker.go: the row worker\<close>

text \<open>
  The body of \<^verbatim>\<open>rowWorker\<close> for one dequeued job: the filter is looked up in the registry;
  an unknown filter gives the error and the job's own pixels
  (\<^verbatim>\<open>result.Pixels = job.Pixels // Return original pixels\<close>). A \<^verbatim>\<open>nil\<close> slice has length 0;
  given one, \<^verbatim>\<open>ApplyBlur\<close> returns its argument (the return under \<^verbatim>\<open>height <= 0\<close>), which is
  \<^verbatim>\<open>nil\<close> again, and each of the other three filters returns the empty slice it has made.
\<close>

definition rowWorkerResult :: "RowJob \<Rightarrow> panic + RowResult" where
  "rowWorkerResult job =
     (case FilterRegistry (JobFilter job) of
        Some apply \<Rightarrow>
          (case apply (case JobPixels job of None \<Rightarrow> [] | Some px \<Rightarrow> px) (JobWidth job) (JobParams job) of
             Inl e \<Rightarrow> Inl e
           | Inr px \<Rightarrow>
               Inr \<lparr>ImageID = JobImageID job, RowIndex = JobRowIndex job,
                    Pixels = (if JobPixels job = None \<and> JobFilter job = FilterBlur then None
                              else Some px),
                    RowError = None\<rparr>)
      | None \<Rightarrow>
          Inr \<lparr>ImageID = JobImageID job, RowIndex = JobRowIndex job,
               Pixels = JobPixels job, RowError = Some (UnknownFilter (JobFilter job))\<rparr>)"

section \<open>The processor: one image\<close>

text \<open>
  A decoded \<^verbatim>\<open>image.Image\<close>: its bounds and, for every point, the colour as
  \<^verbatim>\<open>color.RGBA\<close>, which is what \<^verbatim>\<open>rgba.Set(x, y, img.At(x, y))\<close> stores.
\<close>

record Image =
  Bounds :: Rectangle
  At :: "int \<Rightarrow> int \<Rightarrow> pixel"

fun toRGBALoop :: "Image \<Rightarrow> (int \<times> int) list \<Rightarrow> RGBA \<Rightarrow> panic + RGBA" where
  "toRGBALoop img [] rgba = Inr rgba"
| "toRGBALoop img ((y, x) # rest) rgba =
     (case SetRGBA rgba x y (At img x y) of
        Inl e \<Rightarrow> Inl e
      | Inr rgba' \<Rightarrow> toRGBALoop img rest rgba')"

definition ImageToRGBA :: "Image \<Rightarrow> panic + RGBA" where
  "ImageToRGBA img =
     (let bounds = Bounds img in
        case NewRGBA bounds of
          Inl e \<Rightarrow> Inl e
        | Inr rgba \<Rightarrow>
            toRGBALoop img
              [(y, x). y \<leftarrow> [MinY bounds..MaxY bounds - 1], x \<leftarrow> [MinX bounds..MaxX bounds - 1]]
              rgba)"

text \<open>
  What the processor asks of its surroundings, as functions of a world \<open>'w\<close> (the file
  system): \<^verbatim>\<open>os.Stat\<close> (the size of a file), and the two wrappers \<^verbatim>\<open>loadImage\<close> and
  \<^verbatim>\<open>saveImage\<close> around \<^verbatim>\<open>os.Open\<close>/\<^verbatim>\<open>os.Create\<close> and the codecs. Saving may change the
  world whether or not it returns an error.
\<close>

record 'w Env =
  Stat :: "'w \<Rightarrow> string \<Rightarrow> error + int"
  loadImage :: "'w \<Rightarrow> string \<Rightarrow> error + (Image \<times> string)"
  saveImage :: "'w \<Rightarrow> RGBA \<Rightarrow> string \<Rightarrow> string \<Rightarrow> int \<Rightarrow> error option \<times> 'w"

text \<open>The configuration (\<^verbatim>\<open>config.Config\<close>), fields prefixed with \<open>Cfg\<close>.\<close>

record Config =
  CfgOutputDir :: string
  CfgFilter :: string
  CfgWorkers :: int
  CfgQuality :: int
  CfgBlurRadius :: float64
  CfgBrightness :: float64
  CfgContrast :: float64
  CfgMaxFileSize :: int
  CfgBufferSize :: int

text \<open>
  The goroutine started for one row by \<^verbatim>\<open>ProcessSingleImage\<close>: on each of its two error
  paths it sends a \<^verbatim>\<open>RowResult\<close> with the error and no pixels.
\<close>

definition rowTask :: "RGBA \<Rightarrow> ImageJob \<Rightarrow> int \<Rightarrow> int \<Rightarrow> panic + RowResult" where
  "rowTask rgba job width rowIndex =
     (case ExtractRowPixels rgba rowIndex of
        Inl e \<Rightarrow> Inl e
      | Inr None \<Rightarrow>
          Inr \<lparr>ImageID = ID job, RowIndex = rowIndex, Pixels = None,
               RowError = Some (ExtractFailed rowIndex)\<rparr>
      | Inr (Some pixels) \<Rightarrow>
          (case FilterRegistry (Filter job) of
             Some apply \<Rightarrow>
               (case apply pixels width (Params job) of
                  Inl e \<Rightarrow> Inl e
                | Inr processPixels \<Rightarrow>
                    Inr \<lparr>ImageID = ID job, RowIndex = rowIndex, Pixels = Some processPixels,
                         RowError = None\<rparr>)
           | None \<Rightarrow>
               Inr \<lparr>ImageID = ID job, RowIndex = rowIndex, Pixels = None,
                    RowError = Some (UnknownFilter (Filter job))\<rparr>))"

text \<open>
  The row goroutines run concurrently; their results reach the channel \<^verbatim>\<open>rowResults\<close> in
  some order of arrival, given here as the list \<open>order\<close> of row indices. A panic in any of
  them ends the program.
\<close>

fun allRows :: "(panic + RowResult) list \<Rightarrow> panic + RowResult list" where
  "allRows [] = Inr []"
| "allRows (Inl e # rest) = Inl e"
| "allRows (Inr r # rest) = (case allRows rest of Inl e \<Rightarrow> Inl e | Inr rs \<Rightarrow> Inr (r # rs))"

definition fanOut :: "RGBA \<Rightarrow> ImageJob \<Rightarrow> nat list \<Rightarrow> panic + RowResult list" where
  "fanOut rgba job order =
     (case allRows (map (\<lambda>row. rowTask rgba job (Dx (Rect rgba)) (int row))
                        [0..<nat (Dy (Rect rgba))]) of
        Inl e \<Rightarrow> Inl e
      | Inr sent \<Rightarrow> Inr (map (\<lambda>row. sent ! row) order))"

text \<open>
  \<^verbatim>\<open>for rowResult := range rowResults\<close>: the first error received ends the job,
  otherwise the pixels are stored at \<^verbatim>\<open>processedRows[rowResult.RowIndex]\<close>.
\<close>

fun collectRows :: "RowResult list \<Rightarrow> uint8 list option list \<Rightarrow> error + uint8 list option list" where
  "collectRows [] processedRows = Inr processedRows"
| "collectRows (rowResult # rest) processedRows =
     (case RowError rowResult of
        Some e \<Rightarrow> Inl (RowProcessingFailed e)
      | None \<Rightarrow> collectRows rest (processedRows[nat (RowIndex rowResult) := Pixels rowResult]))"

text \<open>\<^verbatim>\<open>for row := 0; row < height; row++\<close>: every row that was stored is written back.\<close>

fun writeRows :: "RGBA \<Rightarrow> (nat \<times> uint8 list option) list \<Rightarrow> panic + RGBA" where
  "writeRows rgba [] = Inr rgba"
| "writeRows rgba ((row, None) # rest) = writeRows rgba rest"
| "writeRows rgba ((row, Some px) # rest) =
     (case SetRowPixels rgba (int row) px of
        Inl e \<Rightarrow> Inl e
      | Inr rgba' \<Rightarrow> writeRows rgba' rest)"

definition emptyMetadata :: ImageMetadata where
  "emptyMetadata = \<lparr>Width = 0, Height = 0, Format = [], OriginalSize = 0, ProcessedSize = 0,
     RowsProcessed = 0\<rparr>"

text \<open>
  \<^verbatim>\<open>ProcessSingleImage\<close> returns the result and the world it leaves, or panics. After a
  successful save, \<^verbatim>\<open>os.Stat(job.OutputPath)\<close> is called and \<^verbatim>\<open>outputInfo.Size()\<close> is read
  when \<^verbatim>\<open>err != nil\<close>, that is on a nil \<^verbatim>\<open>FileInfo\<close>.
\<close>

definition ProcessSingleImage ::
  "'w Env \<Rightarrow> Config \<Rightarrow> nat list \<Rightarrow> 'w \<Rightarrow> ImageJob \<Rightarrow> panic + (ProcessingResult \<times> 'w)" where
  "ProcessSingleImage env cfg order w job =
     (let result = \<lparr>ResInputPath = InputPath job, ResOutputPath = OutputPath job,
                     ResError = None, Metadata = emptyMetadata\<rparr> in
      case Stat env w (InputPath job) of
        Inl err \<Rightarrow> Inr (result\<lparr>ResError := Some (StatFailed err)\<rparr>, w)
      | Inr fsize \<Rightarrow>
          if fsize > CfgMaxFileSize cfg
          then Inr (result\<lparr>ResError := Some (FileTooLarge fsize (CfgMaxFileSize cfg))\<rparr>, w)
          else
            let result = result\<lparr>Metadata := (Metadata result)\<lparr>OriginalSize := fsize\<rparr>\<rparr> in
            case loadImage env w (InputPath job) of
              Inl err \<Rightarrow> Inr (result\<lparr>ResError := Some (LoadFailed err)\<rparr>, w)
            | Inr (img, format) \<Rightarrow>
                (case ImageToRGBA img of
                   Inl e \<Rightarrow> Inl e
                 | Inr rgba \<Rightarrow>
                     let width = Dx (Rect rgba); height = Dy (Rect rgba);
                         result = result\<lparr>Metadata := (Metadata result)
                                    \<lparr>Width := width, Height := height, Format := format,
                                     RowsProcessed := height\<rparr>\<rparr>
                     in
                     case fanOut rgba job order of
                       Inl e \<Rightarrow> Inl e
                     | Inr rowResults \<Rightarrow>
                         (case collectRows rowResults (replicate (nat height) None) of
                            Inl err \<Rightarrow> Inr (result\<lparr>ResError := Some err\<rparr>, w)
                          | Inr processedRows \<Rightarrow>
                              (case writeRows rgba (zip [0..<nat height] processedRows) of
                                 Inl e \<Rightarrow> Inl e
                               | Inr rgba' \<Rightarrow>
                                   (case saveImage env w rgba' (OutputPath job) format
                                                   (Quality (Params job)) of
                                      (Some err, w') \<Rightarrow>
                                        Inr (result\<lparr>ResError := Some (SaveFailed err)\<rparr>, w')
                                    | (None, w') \<Rightarrow>
                                        (case Stat env w' (OutputPath job) of
                                           Inl err \<Rightarrow> Inl NilDereference
                                         | Inr sz \<Rightarrow> Inr (result, w')))))))"

section \<open>worker.go: the worker pool\<close>

text \<open>
  A channel: the values waiting in its buffer, its capacity, and whether it has been
  closed. A channel of capacity 0 is unbuffered: a send on it goes through only when a
  receiver is waiting, and hands the value over. Closing a closed channel panics, and so
  does \<^verbatim>\<open>make(chan T, n)\<close> with a negative \<open>n\<close>; a buffer of any other size is taken to fit
  into memory.
\<close>

record 'a chan =
  chBuf :: "'a list"
  chCap :: nat
  chClosed :: bool

definition makeChan :: "nat \<Rightarrow> 'a chan" where
  "makeChan n = \<lparr>chBuf = [], chCap = n, chClosed = False\<rparr>"

definition closeChan :: "'a chan \<Rightarrow> panic + 'a chan" where
  "closeChan c = (if chClosed c then Inl CloseOfClosedChannel else Inr (c\<lparr>chClosed := True\<rparr>))"

text \<open>
  \<^verbatim>\<open>WorkerPool\<close>. The file holds two copies of the pool; the second one has the extra
  channel \<^verbatim>\<open>rowJobQueue\<close>, which the first one never touches. \<open>wg\<close> is the counter of the
  \<^verbatim>\<open>sync.WaitGroup\<close>; the logger and the processor are left out.
\<close>

record WorkerPool =
  workerCount :: int
  jobQueue :: "ImageJob chan"
  resultQueue :: "ProcessingResult chan"
  rowJobQueue :: "RowJob chan"
  rowResults :: "RowResult chan"
  quit :: "bool chan"
  wg :: nat

definition NewWorkerPool :: "int \<Rightarrow> int \<Rightarrow> panic + WorkerPool" where
  "NewWorkerPool workers bufferSize =
     (if bufferSize < 0 \<or> wrap64 (bufferSize * 10) < 0 then Inl SizeOutOfRange
      else Inr
        \<lparr>workerCount = workers,
         jobQueue = makeChan (nat bufferSize),
         resultQueue = makeChan (nat bufferSize),
         rowJobQueue = makeChan (nat (wrap64 (bufferSize * 10))),
         rowResults = makeChan (nat (wrap64 (bufferSize * 10))),
         quit = makeChan 0,
         wg = 0\<rparr>)"

text \<open>
  \<^verbatim>\<open>wp.wg.Wait()\<close> returns once every worker has called \<^verbatim>\<open>wg.Done()\<close>; after
  \<^verbatim>\<open>close(wp.quit)\<close> each worker does so at its next \<^verbatim>\<open>select\<close>.
\<close>

definition wgWait :: "WorkerPool \<Rightarrow> WorkerPool" where
  "wgWait wp = wp\<lparr>wg := 0\<rparr>"

definition bindPanic :: "panic + 'a \<Rightarrow> ('a \<Rightarrow> panic + 'b) \<Rightarrow> panic + 'b" where
  "bindPanic m f = (case m of Inl e \<Rightarrow> Inl e | Inr x \<Rightarrow> f x)"

text \<open>
  \<^verbatim>\<open>Stop\<close> of the first copy (lines 48 to 54):
  \<^verbatim>\<open>close(wp.quit); close(wp.jobQueue); wp.wg.Wait(); close(wp.resultQueue)\<close>.
\<close>

definition Stop :: "WorkerPool \<Rightarrow> panic + WorkerPool" where
  "Stop wp =
     bindPanic (closeChan (quit wp)) (\<lambda>q.
     bindPanic (closeChan (jobQueue wp)) (\<lambda>jq.
       let wp1 = wgWait (wp\<lparr>quit := q, jobQueue := jq\<rparr>) in
     bindPanic (closeChan (resultQueue wp1)) (\<lambda>rq.
       Inr (wp1\<lparr>resultQueue := rq\<rparr>))))"

text \<open>
  \<^verbatim>\<open>Stop\<close> of the second copy (lines 200 to 208):
  \<^verbatim>\<open>close(wp.quit); close(wp.jobQueue); close(wp.rowJobQueue); wp.wg.Wait();
  close(wp.resultQueue); close(wp.resultQueue)\<close>.
\<close>

definition Stop2 :: "WorkerPool \<Rightarrow> panic + WorkerPool" where
  "Stop2 wp =
     bindPanic (closeChan (quit wp)) (\<lambda>q.
     bindPanic (closeChan (jobQueue wp)) (\<lambda>jq.
     bindPanic (closeChan (rowJobQueue wp)) (\<lambda>rjq.
       let wp1 = wgWait (wp\<lparr>quit := q, jobQueue := jq, rowJobQueue := rjq\<rparr>) in
     bindPanic (closeChan (resultQueue wp1)) (\<lambda>rq.
     bindPanic (closeChan rq) (\<lambda>rq2.
       Inr (wp1\<lparr>resultQueue := rq2\<rparr>))))))"

section \<open>The processor: a batch of images\<close>

text \<open>
  \<^verbatim>\<open>generateOutputPath\<close> uses \<^verbatim>\<open>filepath.Dir\<close>, \<^verbatim>\<open>Base\<close>, \<^verbatim>\<open>Ext\<close> and \<^verbatim>\<open>Join\<close> of the
  standard library, taken here as given functions.
\<close>

record PathLib =
  pathDir :: "string \<Rightarrow> string"
  pathBase :: "string \<Rightarrow> string"
  pathExt :: "string \<Rightarrow> string"
  pathJoin :: "string \<Rightarrow> string \<Rightarrow> string"

definition TrimSuffix :: "string \<Rightarrow> string \<Rightarrow> string" where
  "TrimSuffix s suffix =
     (if length suffix \<le> length s \<and> drop (length s - length suffix) s = suffix
      then take (length s - length suffix) s else s)"

definition generateOutputPath :: "PathLib \<Rightarrow> Config \<Rightarrow> string \<Rightarrow> string" where
  "generateOutputPath lib cfg inputPath =
     (let dir = pathDir lib inputPath;
          filename = pathBase lib inputPath;
          ext = pathExt lib inputPath;
          name = TrimSuffix filename ext;
          outputDir = (if CfgOutputDir cfg = [] then dir else CfgOutputDir cfg);
          outputFilename = name @ ''_'' @ CfgFilter cfg @ ext
      in pathJoin lib outputDir outputFilename)"

text \<open>\<^verbatim>\<open>fmt.Sprintf("job_%d", i)\<close>: the index in decimal.\<close>

function decimal :: "nat \<Rightarrow> string" where
  "decimal n = (if n < 10 then [char_of (48 + n)] else decimal (n div 10) @ [char_of (48 + n mod 10)])"
  by pat_completeness auto
termination
  by (relation "measure id") auto

declare decimal.simps [simp del]

definition makeJob :: "PathLib \<Rightarrow> Config \<Rightarrow> nat \<Rightarrow> string \<Rightarrow> ImageJob" where
  "makeJob lib cfg i path =
     \<lparr>ID = ''job_'' @ decimal i,
      InputPath = path,
      OutputPath = generateOutputPath lib cfg path,
      Filter = CfgFilter cfg,
      Params = \<lparr>BlurRadius = CfgBlurRadius cfg, Brightness = CfgBrightness cfg,
                Contrast = CfgContrast cfg, Quality = CfgQuality cfg\<rparr>\<rparr>"

text \<open>
  The \<^verbatim>\<open>Processor\<close> (its logger left out) and \<^verbatim>\<open>New\<close>, which builds the pool with
  \<^verbatim>\<open>NewWorkerPool(cfg.Workers, cfg.BufferSize, log, processor)\<close>.
\<close>

record Processor =
  config :: Config
  workerPool :: WorkerPool

definition New :: "Config \<Rightarrow> panic + Processor" where
  "New cfg =
     (case NewWorkerPool (CfgWorkers cfg) (CfgBufferSize cfg) of
        Inl e \<Rightarrow> Inl e
      | Inr wp \<Rightarrow> Inr \<lparr>config = cfg, workerPool = wp\<rparr>)"

text \<open>
  \<^verbatim>\<open>ProcessImages\<close> runs the main goroutine and \<^verbatim>\<open>workerCount\<close> image workers
  concurrently. The state of the run:
  \<^item> the main goroutine is submitting job \<open>i\<close>, or collecting (with the results received so
    far), or has returned its pair of results and error, or the program has crashed;
  \<^item> each image worker waits at the \<^verbatim>\<open>select\<close> of its loop (\<open>Idle\<close>), or holds a result at
    the \<^verbatim>\<open>select\<close> that sends it (\<open>Holding\<close>), or has returned (\<open>Exited\<close>);
  \<^item> the pool's channels, whether the context has been cancelled, and the world.
\<close>

datatype mainState =
    Submitting nat
  | Collecting "ProcessingResult list"
  | Returned "ProcessingResult list" "error option"
  | Crashed panic

datatype workerState = Idle | Holding ProcessingResult | Exited

record 'w run =
  mainPc :: mainState
  workers :: "workerState list"
  pool :: WorkerPool
  cancelled :: bool
  world :: 'w

text \<open>
  One step of one goroutine, chosen by the scheduler; \<open>None\<close> when that step cannot be
  taken in the state.
  \<^item> \<open>Cancel\<close>: the context is cancelled.
  \<^item> \<open>Submit\<close>: \<^verbatim>\<open>SubmitJob\<close>, the case \<^verbatim>\<open>wp.jobQueue <- job\<close> when the queue has room; after
    the last path the main goroutine enters the collection loop. The other case of that
    \<^verbatim>\<open>select\<close>, \<^verbatim>\<open><-wp.quit\<close>, cannot be taken: \<^verbatim>\<open>quit\<close> is closed by \<^verbatim>\<open>Stop\<close> only.
  \<^item> \<open>Receive\<close>: the case \<^verbatim>\<open>result := <-p.workerPool.Results()\<close> of the collection loop.
  \<^item> \<open>ObserveDone\<close>: its case \<^verbatim>\<open><-ctx.Done()\<close>: \<^verbatim>\<open>return results, ctx.Err()\<close>.
  \<^item> \<open>Finish\<close>: the loop condition fails: \<^verbatim>\<open>return results, nil\<close>.
  \<^item> \<open>WorkerTake k order\<close>: worker \<open>k\<close> receives a job and runs \<^verbatim>\<open>ProcessSingleImage\<close> on it
    (whose rows arrive in \<open>order\<close>). The job is the first of the queue or, on an
    unbuffered queue, the one the main goroutine is waiting to send.
  \<^item> \<open>WorkerSend k\<close>: the case \<^verbatim>\<open>wp.resultQueue <- result\<close>: the queue has room or, on an
    unbuffered queue, the main goroutine is waiting in the collection loop and receives
    the result.
  \<^item> \<open>WorkerStop k\<close>: a case \<^verbatim>\<open><-ctx.Done()\<close> of worker \<open>k\<close>: it returns.
  Both returns run the deferred \<^verbatim>\<open>p.workerPool.Stop()\<close>, after which every worker has
  returned.
\<close>

datatype action =
    Cancel
  | Submit
  | Receive
  | ObserveDone
  | Finish
  | WorkerTake nat "nat list"
  | WorkerSend nat
  | WorkerStop nat

definition returnWith :: "'w run \<Rightarrow> ProcessingResult list \<Rightarrow> error option \<Rightarrow> 'w run" where
  "returnWith s results err =
     (case Stop (pool s) of
        Inl e \<Rightarrow> s\<lparr>mainPc := Crashed e\<rparr>
      | Inr wp \<Rightarrow> s\<lparr>mainPc := Returned results err, pool := wp,
                      workers := map (\<lambda>k. Exited) (workers s)\<rparr>)"

definition afterSubmit :: "string list \<Rightarrow> nat \<Rightarrow> mainState" where
  "afterSubmit imagePaths i = (if i < length imagePaths then Submitting i else Collecting [])"

text \<open>
  Worker \<open>k\<close> with a job in hand: \<^verbatim>\<open>result := wp.processor.ProcessSingleImage(ctx, job)\<close>; a
  panic there ends the program.
\<close>

definition workerRuns :: "'w Env \<Rightarrow> Config \<Rightarrow> nat list \<Rightarrow> nat \<Rightarrow> ImageJob \<Rightarrow> 'w run \<Rightarrow> 'w run" where
  "workerRuns env cfg order k job s =
     (case ProcessSingleImage env cfg order (world s) job of
        Inl e \<Rightarrow> s\<lparr>mainPc := Crashed e\<rparr>
      | Inr (result, w') \<Rightarrow> s\<lparr>workers := (workers s)[k := Holding result], world := w'\<rparr>)"

fun step :: "'w Env \<Rightarrow> PathLib \<Rightarrow> Config \<Rightarrow> string list \<Rightarrow> action \<Rightarrow> 'w run \<Rightarrow> 'w run option" where
  "step env lib cfg imagePaths Cancel s =
     (case mainPc s of
        Returned rs err \<Rightarrow> None
      | Crashed e \<Rightarrow> None
      | _ \<Rightarrow> Some (s\<lparr>cancelled := True\<rparr>))"
| "step env lib cfg imagePaths Submit s =
     (case mainPc s of
        Submitting i \<Rightarrow>
          let jq = jobQueue (pool s) in
            if i < length imagePaths \<and> length (chBuf jq) < chCap jq then
              Some (s\<lparr>pool := (pool s)\<lparr>jobQueue := jq\<lparr>chBuf := chBuf jq @ [makeJob lib cfg i (imagePaths ! i)]\<rparr>\<rparr>,
                      mainPc := afterSubmit imagePaths (i + 1)\<rparr>)
            else None
      | _ \<Rightarrow> None)"
| "step env lib cfg imagePaths Receive s =
     (case mainPc s of
        Collecting results \<Rightarrow>
          let rq = resultQueue (pool s) in
            (case chBuf rq of
               r # rest \<Rightarrow>
                 if length results < length imagePaths then
                   Some (s\<lparr>pool := (pool s)\<lparr>resultQueue := rq\<lparr>chBuf := rest\<rparr>\<rparr>,
                           mainPc := Collecting (results @ [r])\<rparr>)
                 else None
             | [] \<Rightarrow> None)
      | _ \<Rightarrow> None)"
| "step env lib cfg imagePaths ObserveDone s =
     (case mainPc s of
        Collecting results \<Rightarrow>
          if length results < length imagePaths \<and> cancelled s
          then Some (returnWith s results (Some ContextError)) else None
      | _ \<Rightarrow> None)"
| "step env lib cfg imagePaths Finish s =
     (case mainPc s of
        Collecting results \<Rightarrow>
          if length results < length imagePaths then None
          else Some (returnWith s results None)
      | _ \<Rightarrow> None)"
| "step env lib cfg imagePaths (WorkerTake k order) s =
     (case mainPc s of
        Returned rs err \<Rightarrow> None
      | Crashed e \<Rightarrow> None
      | _ \<Rightarrow>
          let jq = jobQueue (pool s) in
            if k < length (workers s) \<and> workers s ! k = Idle then
              (case chBuf jq of
                 job # rest \<Rightarrow>
                   Some (workerRuns env cfg order k job
                           (s\<lparr>pool := (pool s)\<lparr>jobQueue := jq\<lparr>chBuf := rest\<rparr>\<rparr>\<rparr>))
               | [] \<Rightarrow>
                   (case mainPc s of
                      Submitting i \<Rightarrow>
                        if chCap jq = 0 \<and> i < length imagePaths then
                          Some (workerRuns env cfg order k (makeJob lib cfg i (imagePaths ! i))
                                  (s\<lparr>mainPc := afterSubmit imagePaths (i + 1)\<rparr>))
                        else None
                    | _ \<Rightarrow> None))
            else None)"
| "step env lib cfg imagePaths (WorkerSend k) s =
     (case mainPc s of
        Returned rs err \<Rightarrow> None
      | Crashed e \<Rightarrow> None
      | _ \<Rightarrow>
          let rq = resultQueue (pool s) in
            if k < length (workers s) then
              (case workers s ! k of
                 Holding result \<Rightarrow>
                   if length (chBuf rq) < chCap rq then
                     Some (s\<lparr>pool := (pool s)\<lparr>resultQueue := rq\<lparr>chBuf := chBuf rq @ [result]\<rparr>\<rparr>,
                             workers := (workers s)[k := Idle]\<rparr>)
                   else
                     (case mainPc s of
                        Collecting results \<Rightarrow>
                          if chCap rq = 0 \<and> length results < length imagePaths then
                            Some (s\<lparr>mainPc := Collecting (results @ [result]),
                                    workers := (workers s)[k := Idle]\<rparr>)
                          else None
                      | _ \<Rightarrow> None)
               | _ \<Rightarrow> None)
            else None)"
| "step env lib cfg imagePaths (WorkerStop k) s =
     (case mainPc s of
        Returned rs err \<Rightarrow> None
      | Crashed e \<Rightarrow> None
      | _ \<Rightarrow>
          if k < length (workers s) \<and> cancelled s \<and> workers s ! k \<noteq> Exited
          then Some (s\<lparr>workers := (workers s)[k := Exited]\<rparr>) else None)"

text \<open>
  The state after \<^verbatim>\<open>p.workerPool.Start(ctx)\<close>: \<^verbatim>\<open>workerCount\<close> idle image workers, counted in
  the wait group.
\<close>

definition started :: "Processor \<Rightarrow> string list \<Rightarrow> 'w \<Rightarrow> 'w run" where
  "started p imagePaths w =
     \<lparr>mainPc = afterSubmit imagePaths 0,
      workers = replicate (nat (workerCount (workerPool p))) Idle,
      pool = (workerPool p)\<lparr>wg := nat (workerCount (workerPool p))\<rparr>,
      cancelled = False,
      world = w\<rparr>"

fun steps :: "'w Env \<Rightarrow> PathLib \<Rightarrow> Config \<Rightarrow> string list \<Rightarrow> action list \<Rightarrow> 'w run \<Rightarrow> 'w run option" where
  "steps env lib cfg imagePaths [] s = Some s"
| "steps env lib cfg imagePaths (a # as) s =
     (case step env lib cfg imagePaths a s of
        None \<Rightarrow> None
      | Some s' \<Rightarrow> steps env lib cfg imagePaths as s')"

text \<open>
  \<^verbatim>\<open>ProcessImages\<close> of a processor under a schedule: the state reached, whose \<open>mainPc\<close> is
  \<open>Returned results err\<close> when the call has returned.
\<close>

definition ProcessImages ::
  "'w Env \<Rightarrow> PathLib \<Rightarrow> Processor \<Rightarrow> action list \<Rightarrow> 'w \<Rightarrow> string list \<Rightarrow> 'w run option" where
  "ProcessImages env lib p schedule w imagePaths =
     steps env lib (config p) imagePaths schedule (started p imagePaths w)"
section \<open>Notions used to state the properties\<close>

text \<open>The \<open>k\<close>-th pixel of a buffer of interleaved R, G, B, A bytes.\<close>

definition pixelOf :: "uint8 list \<Rightarrow> nat \<Rightarrow> pixel" where
  "pixelOf xs k = (xs ! (4 * k), xs ! (4 * k + 1), xs ! (4 * k + 2), xs ! (4 * k + 3))"

text \<open>The float64 value of \<^verbatim>\<open>0.299*r + 0.587*g + 0.114*b\<close> for three byte values.\<close>

definition grayValue :: "nat \<Rightarrow> nat \<Rightarrow> nat \<Rightarrow> rat" where
  "grayValue r g b =
     fadd (fadd (fmul (fl64 (299 / 1000)) (of_nat r)) (fmul (fl64 (587 / 1000)) (of_nat g)))
          (fmul (fl64 (114 / 1000)) (of_nat b))"


text \<open>
  The exact weighted sum \<open>299 R + 587 G + 114 B\<close> of the \<open>k\<close>-th pixel, in thousandths of a
  gray level.
\<close>

definition lumaNum :: "uint8 list \<Rightarrow> nat \<Rightarrow> nat" where
  "lumaNum src k =
     299 * unat (src ! (4 * k)) + 587 * unat (src ! (4 * k + 1)) + 114 * unat (src ! (4 * k + 2))"

text \<open>
  The shape of a valid \<^verbatim>\<open>image.RGBA\<close>: a rectangle that is not inverted, rows of
  \<open>4 * Dx\<close> bytes that fit in the stride, and a buffer that holds every row. It holds for
  what \<^verbatim>\<open>image.NewRGBA\<close> returns and for its sub-images.
\<close>

definition wf_RGBA :: "RGBA \<Rightarrow> bool" where
  "wf_RGBA img \<longleftrightarrow>
     0 \<le> Dx (Rect img) \<and> 0 \<le> Dy (Rect img) \<and> 4 * Dx (Rect img) \<le> Stride img \<and>
     (0 < Dy (Rect img) \<longrightarrow>
        (Dy (Rect img) - 1) * Stride img + 4 * Dx (Rect img) \<le> int (length (Pix img)))"

text \<open>
  The input paths of the jobs and results that are on their way in a state of a batch run:
  in the job queue, held by a worker, or in the result queue.
\<close>

definition held :: "workerState \<Rightarrow> string multiset" where
  "held ws = (case ws of Holding r \<Rightarrow> {#ResInputPath r#} | _ \<Rightarrow> {#})"

definition inFlight :: "'w run \<Rightarrow> string multiset" where
  "inFlight s =
     mset (map InputPath (chBuf (jobQueue (pool s)))) +
     sum_mset (image_mset held (mset (workers s))) +
     mset (map ResInputPath (chBuf (resultQueue (pool s))))"

definition channelsOpen :: "WorkerPool \<Rightarrow> bool" where
  "channelsOpen wp \<longleftrightarrow> \<not> chClosed (quit wp) \<and> \<not> chClosed (jobQueue wp) \<and> \<not> chClosed (resultQueue wp)"

text \<open>What holds in every state of a batch run over \<open>imagePaths\<close>.\<close>

definition batchInv :: "string list \<Rightarrow> 'w run \<Rightarrow> bool" where
  "batchInv imagePaths s =
     (case mainPc s of
        Submitting i \<Rightarrow>
          i < length imagePaths \<and> channelsOpen (pool s) \<and> inFlight s \<subseteq># mset (take i imagePaths)
      | Collecting results \<Rightarrow>
          channelsOpen (pool s) \<and>
          inFlight s + mset (map ResInputPath results) \<subseteq># mset imagePaths
      | Returned results err \<Rightarrow>
          mset (map ResInputPath results) \<subseteq># mset imagePaths \<and>
          (case err of
             None \<Rightarrow> length imagePaths \<le> length results
           | Some e \<Rightarrow> e = ContextError \<and> cancelled s \<and> length results < length imagePaths)
      | Crashed e \<Rightarrow> True)"

text \<open>
  While the main goroutine is still submitting, every job it has submitted is in the job
  queue, or in the result queue, or was taken by a worker that has not come back to its
  \<^verbatim>\<open>select\<close> since: \<open>busy\<close> counts the workers that are not idle. \<open>B\<close> is the capacity of the two
  queues and \<open>W\<close> the number of workers.
\<close>

definition busy :: "workerState list \<Rightarrow> nat" where
  "busy ws = length (filter (\<lambda>w. w \<noteq> Idle) ws)"

definition submitInv :: "nat \<Rightarrow> nat \<Rightarrow> 'w run \<Rightarrow> bool" where
  "submitInv B W s \<longleftrightarrow>
     length (workers s) = W \<and>
     chCap (jobQueue (pool s)) = B \<and> chCap (resultQueue (pool s)) = B \<and>
     length (chBuf (jobQueue (pool s))) \<le> B \<and> length (chBuf (resultQueue (pool s))) \<le> B \<and>
     (case mainPc s of
        Submitting i \<Rightarrow>
          i \<le> length (chBuf (jobQueue (pool s))) + length (chBuf (resultQueue (pool s)))
                + busy (workers s)
      | Crashed e \<Rightarrow> True
      | _ \<Rightarrow> False)"

text \<open>
  A run whose context is not cancelled: \<open>pending\<close> weighs what is still to be done (a
  path not yet submitted counts 4, a job in the queue 3, a worker that is not idle 2, a
  result in the queue 1, and 1 for the return), and \<open>liveInv\<close> says that every job of the
  batch that was submitted is in the job queue, held by a worker, in the result queue or
  among the results received.
\<close>

definition pending :: "nat \<Rightarrow> 'w run \<Rightarrow> nat" where
  "pending n s =
     (let q = 3 * length (chBuf (jobQueue (pool s))) + 2 * busy (workers s)
                + length (chBuf (resultQueue (pool s)))
      in case mainPc s of
           Submitting i \<Rightarrow> 4 * (n - i) + 1 + q
         | Collecting results \<Rightarrow> 1 + q
         | _ \<Rightarrow> 0)"

definition liveInv :: "PathLib \<Rightarrow> Config \<Rightarrow> string list \<Rightarrow> nat \<Rightarrow> nat \<Rightarrow> 'w run \<Rightarrow> bool" where
  "liveInv lib cfg imagePaths B W s \<longleftrightarrow>
     (case mainPc s of
        Submitting i \<Rightarrow>
          i < length imagePaths \<and>
          i = length (chBuf (jobQueue (pool s))) + length (chBuf (resultQueue (pool s)))
                + busy (workers s) \<and>
          \<not> cancelled s \<and> channelsOpen (pool s) \<and> length (workers s) = W \<and>
          chCap (jobQueue (pool s)) = B \<and> chCap (resultQueue (pool s)) = B \<and>
          length (chBuf (jobQueue (pool s))) \<le> B \<and> length (chBuf (resultQueue (pool s))) \<le> B \<and>
          Exited \<notin> set (workers s) \<and>
          (\<forall>job\<in>set (chBuf (jobQueue (pool s))).
             \<exists>i<length imagePaths. job = makeJob lib cfg i (imagePaths ! i))
      | Collecting results \<Rightarrow>
          length (chBuf (jobQueue (pool s))) + length (chBuf (resultQueue (pool s)))
                + busy (workers s) + length results = length imagePaths \<and>
          \<not> cancelled s \<and> channelsOpen (pool s) \<and> length (workers s) = W \<and>
          chCap (jobQueue (pool s)) = B \<and> chCap (resultQueue (pool s)) = B \<and>
          length (chBuf (jobQueue (pool s))) \<le> B \<and> length (chBuf (resultQueue (pool s))) \<le> B \<and>
          Exited \<notin> set (workers s) \<and>
          (\<forall>job\<in>set (chBuf (jobQueue (pool s))).
             \<exists>i<length imagePaths. job = makeJob lib cfg i (imagePaths ! i))
      | Returned results err \<Rightarrow> err = None \<and> length results = length imagePaths
      | Crashed e \<Rightarrow> False)"

text \<open>
  The box blur in exact arithmetic: the cells \<open>(nx, ny)\<close> of the \<open>(2r+1) x (2r+1)\<close> window of
  pixel \<open>(x, y)\<close> that lie inside the image, the value of channel \<open>c\<close> of a cell, and the
  integer-truncated mean of a channel over the window.
\<close>

definition blurCells :: "int \<Rightarrow> int \<Rightarrow> int \<Rightarrow> int \<Rightarrow> int \<Rightarrow> (int \<times> int) list" where
  "blurCells width height radius x y =
     [(nx, ny).
        dy \<leftarrow> [- radius..radius], dx \<leftarrow> [- radius..radius],
        nx \<leftarrow> [x + dx], ny \<leftarrow> [y + dy],
        nx \<ge> 0 \<and> nx < width \<and> ny \<ge> 0 \<and> ny < height]"

definition channelAt :: "uint8 list \<Rightarrow> int \<Rightarrow> nat \<Rightarrow> int \<times> int \<Rightarrow> nat" where
  "channelAt src width c cell =
     (case cell of (nx, ny) \<Rightarrow> unat (src ! (nat ((ny * width + nx) * 4) + c)))"

definition boxMean :: "uint8 list \<Rightarrow> int \<Rightarrow> int \<Rightarrow> int \<Rightarrow> int \<Rightarrow> int \<Rightarrow> nat \<Rightarrow> nat" where
  "boxMean src width height radius x y c =
     sum_list (map (channelAt src width c) (blurCells width height radius x y))
       div length (blurCells width height radius x y)"
section \<open>Properties of the float64 rounding\<close>

lemma powi_rat_nat: "(2::rat) powi (int a - int b) = 2 ^ a / 2 ^ b"
  by (simp add: power_int_diff)

lemma expo_bounds:
  assumes "0 < x"
  shows "2 powi (expo x) \<le> x \<and> x < 2 powi (expo x + 1)"
proof -
  obtain p q where pq: "quotient_of x = (p, q)" by (cases "quotient_of x")
  have q: "0 < q" using pq by (rule quotient_of_denom_pos)
  have x: "x = of_int p / of_int q" using pq by (rule quotient_of_div)
  have p: "0 < p" using assms q x by (simp add: zero_less_divide_iff)
  define bp where "bp = nat (bitlen p)"
  define bq where "bq = nat (bitlen q)"
  have bp1: "1 \<le> bitlen p" and bq1: "1 \<le> bitlen q"
    using p q bitlen_eq_zero_iff [of p] bitlen_eq_zero_iff [of q] bitlen_nonneg [of p] bitlen_nonneg [of q]
    by linarith+
  have bl: "bitlen p = int bp" "bitlen q = int bq" using bp1 bq1 by (simp_all add: bp_def bq_def)
  have bp0: "0 < bp" "0 < bq" using bp1 bq1 bl by simp_all
  have P: "2 ^ (bp - 1) \<le> p" "p < 2 ^ bp"
    using bitlen_bounds [OF p] bp1 by (simp_all add: bp_def nat_diff_distrib)
  have Q: "2 ^ (bq - 1) \<le> q" "q < 2 ^ bq"
    using bitlen_bounds [OF q] bq1 by (simp_all add: bq_def nat_diff_distrib)
  have Pr: "(2::rat) ^ (bp - 1) \<le> of_int p" "(of_int p :: rat) < 2 ^ bp"
    using P by (metis of_int_le_iff of_int_numeral of_int_power, metis of_int_less_iff of_int_numeral of_int_power)
  have Qr: "(2::rat) ^ (bq - 1) \<le> of_int q" "(of_int q :: rat) < 2 ^ bq"
    using Q by (metis of_int_le_iff of_int_numeral of_int_power, metis of_int_less_iff of_int_numeral of_int_power)
  have qr: "(0::rat) < of_int q" using q by simp
  define d where "d = int bp - int bq"
  have up: "x < 2 powi (d + 1)"
  proof -
    have "of_int p * (2::rat) ^ (bq - 1) < 2 ^ bp * of_int q"
      using Pr(2) Qr(1) qr
      by (meson less_le_trans mult_le_cancel_left_pos mult_less_cancel_right_pos zero_less_numeral zero_less_power)
    then have "x < 2 ^ bp / 2 ^ (bq - 1)"
      unfolding x using qr by (simp add: field_simps)
    also have "\<dots> = 2 powi (int bp - int (bq - 1))" by (simp add: powi_rat_nat)
    also have "int bp - int (bq - 1) = d + 1" using bp0 by (simp add: d_def of_nat_diff)
    finally show ?thesis .
  qed
  have lo: "2 powi (d - 1) \<le> x"
  proof -
    have "(2::rat) ^ (bp - 1) * of_int q \<le> of_int p * 2 ^ bq"
      using Pr(1) Qr(2) qr
      by (smt (verit, best) mult_mono of_int_0_le_iff p less_imp_le zero_le_numeral zero_le_power)
    then have "2 ^ (bp - 1) / 2 ^ bq \<le> x"
      unfolding x using qr by (simp add: field_simps)
    moreover have "(2::rat) ^ (bp - 1) / 2 ^ bq = 2 powi (int (bp - 1) - int bq)" by (simp add: powi_rat_nat)
    moreover have "int (bp - 1) - int bq = d - 1" using bp0 by (simp add: d_def of_nat_diff)
    ultimately show ?thesis by simp
  qed
  have e: "expo x = (if 2 powi d \<le> x then d else d - 1)"
    by (simp add: expo_def pq bl d_def)
  show ?thesis
  proof (cases "2 powi d \<le> x")
    case True
    then show ?thesis using up e by simp
  next
    case False
    then show ?thesis using lo e by simp
  qed
qed

lemma floor_frac_rat: "0 \<le> y - of_int \<lfloor>y\<rfloor>" "y - of_int \<lfloor>y\<rfloor> < (1::rat)"
  by linarith+

lemma round_even_cases:
  "round_even y = \<lfloor>y\<rfloor> \<and> y - of_int \<lfloor>y\<rfloor> \<le> 1 / 2 \<or>
   round_even y = \<lfloor>y\<rfloor> + 1 \<and> 1 / 2 \<le> y - of_int \<lfloor>y\<rfloor>"
  unfolding round_even_def Let_def by auto

lemma round_even_err: "\<bar>of_int (round_even y) - y\<bar> \<le> 1 / 2"
  using round_even_cases [of y] floor_frac_rat [of y] by auto

lemma round_even_of_int [simp]: "round_even (of_int k) = k"
  by (simp add: round_even_def)

lemma round_even_ge: "of_int k \<le> y \<Longrightarrow> k \<le> round_even y"
proof -
  assume "of_int k \<le> y"
  then have "k \<le> \<lfloor>y\<rfloor>" by (simp add: le_floor_iff)
  then show ?thesis using round_even_cases [of y] by auto
qed

lemma round_even_le: "y \<le> of_int k \<Longrightarrow> round_even y \<le> k"
proof -
  assume a: "y \<le> of_int k"
  show ?thesis
  proof (cases "y = of_int k")
    case True then show ?thesis by simp
  next
    case False
    then have "y < of_int k" using a by simp
    then have "\<lfloor>y\<rfloor> < k" by (simp add: floor_less_iff)
    then show ?thesis using round_even_cases [of y] by auto
  qed
qed


lemma powi_pos [simp]: "(0::rat) < 2 powi e"
  by (simp add: zero_less_power_int)


text \<open>On the grid of exponent e, rounding moves a value by at most half a grid step.\<close>

lemma fl64_grid:
  assumes "0 < x"
  defines "e \<equiv> max (expo x - 52) (- 1074)"
  shows "fl64 x = of_int (round_even (x / 2 powi e)) * 2 powi e"
  using assms by (simp add: fl64_def Let_def)

lemma fl64_zero [simp]: "fl64 0 = 0"
  by (simp add: fl64_def)

lemma fl64_nonneg: "0 \<le> x \<Longrightarrow> 0 \<le> fl64 x"
proof (cases "x = 0")
  case True then show ?thesis by simp
next
  case False
  assume "0 \<le> x"
  with False have x: "0 < x" by simp
  have "(0::int) \<le> round_even (x / 2 powi max (expo x - 52) (- 1074))"
    by (rule round_even_ge) (use x in simp)
  then show ?thesis unfolding fl64_grid [OF x] by simp
qed

lemma fl64_err_grid:
  assumes "0 < x"
  shows "\<bar>fl64 x - x\<bar> \<le> 2 powi (max (expo x - 52) (- 1074)) / 2"
proof -
  define e where "e = max (expo x - 52) (- 1074)"
  define y where "y = x / 2 powi e"
  have x: "x = y * 2 powi e" by (simp add: y_def)
  have "fl64 x - x = (of_int (round_even y) - y) * 2 powi e"
    using fl64_grid [OF assms] by (simp add: e_def y_def algebra_simps)
  then have "\<bar>fl64 x - x\<bar> = \<bar>of_int (round_even y) - y\<bar> * 2 powi e"
    by (simp add: abs_mult)
  also have "\<dots> \<le> 1 / 2 * 2 powi e"
    by (intro mult_right_mono round_even_err) simp
  finally show ?thesis by (simp add: e_def)
qed

lemma expo_less:
  assumes "0 < x" "x < 2 powi n"
  shows "expo x < n"
proof (rule ccontr)
  assume "\<not> expo x < n"
  then have "n \<le> expo x" by simp
  then have "(2::rat) powi n \<le> 2 powi expo x" by (simp add: power_int_increasing)
  with expo_bounds [OF assms(1)] assms(2) show False by simp
qed

lemma expo_ge:
  assumes "0 < x" "2 powi n \<le> x"
  shows "n \<le> expo x"
proof (rule ccontr)
  assume "\<not> n \<le> expo x"
  then have "expo x + 1 \<le> n" by simp
  then have "(2::rat) powi (expo x + 1) \<le> 2 powi n" by (simp add: power_int_increasing)
  with expo_bounds [OF assms(1)] assms(2) show False by simp
qed

lemma fl64_abs_err:
  assumes "0 \<le> x" "x < 256"
  shows "\<bar>fl64 x - x\<bar> \<le> 1 / 2 ^ 46"
proof (cases "x = 0")
  case True then show ?thesis by simp
next
  case False
  with assms have x: "0 < x" by simp
  define e where "e = max (expo x - 52) (- 1074)"
  have "x < 2 powi 8" using assms(2) by simp
  then have "expo x < 8" by (rule expo_less [OF x])
  then have "e \<le> - 45" by (simp add: e_def)
  then have P: "(2::rat) powi e \<le> 2 powi (- 45)"
    by (intro power_int_increasing) simp_all
  have Q: "(2::rat) powi (- 45) = 1 / 2 ^ 45"
    by (simp add: power_int_minus field_simps)
  have "\<bar>fl64 x - x\<bar> \<le> 2 powi e / 2"
    using fl64_err_grid [OF x] by (simp add: e_def)
  also have "\<dots> \<le> (1 / 2 ^ 45) / 2" using P unfolding Q by (rule divide_right_mono) simp
  also have "\<dots> = 1 / 2 ^ 46" by simp
  finally show ?thesis .
qed

text \<open>Below \<open>2 ^ 53\<close> every integer lies on the rounding grid, so rounding never crosses one.\<close>

lemma grid_int:
  assumes "e \<le> 0"
  shows "of_int k / (2::rat) powi e = of_int (k * 2 ^ nat (- e))"
proof -
  from assms have "e = - int (nat (- e))" by simp
  then have "(2::rat) powi e = 1 / 2 ^ nat (- e)"
    by (metis power_int_minus power_int_of_nat inverse_eq_divide)
  then show ?thesis by simp
qed

lemma fl64_ge_int:
  assumes "0 < x" "x < 2 ^ 53" "of_int k \<le> x"
  shows "of_int k \<le> fl64 x"
proof -
  define e where "e = max (expo x - 52) (- 1074)"
  have "x < 2 powi 53" using assms(2) by simp
  then have "expo x < 53" by (rule expo_less [OF assms(1)])
  then have e: "e \<le> 0" by (simp add: e_def)
  have "of_int k / 2 powi e \<le> x / 2 powi e"
    using assms(3) by (simp add: divide_right_mono)
  then have "k * 2 ^ nat (- e) \<le> round_even (x / 2 powi e)"
    unfolding grid_int [OF e] by (rule round_even_ge)
  then have "(of_int (k * 2 ^ nat (- e)) :: rat) \<le> of_int (round_even (x / 2 powi e))"
    by (simp only: of_int_le_iff)
  then have A: "(of_int (k * 2 ^ nat (- e)) :: rat) * 2 powi e \<le> of_int (round_even (x / 2 powi e)) * 2 powi e"
    by (rule mult_right_mono) (rule less_imp_le, rule powi_pos)
  have B: "(of_int (k * 2 ^ nat (- e)) :: rat) * 2 powi e = of_int k"
    unfolding grid_int [OF e, of k, symmetric] by simp
  have C: "fl64 x = of_int (round_even (x / 2 powi e)) * 2 powi e"
    using fl64_grid [OF assms(1)] by (simp add: e_def)
  show ?thesis using A unfolding B C .
qed

lemma fl64_le_int:
  assumes "0 < x" "x < 2 ^ 53" "x \<le> of_int k"
  shows "fl64 x \<le> of_int k"
proof -
  define e where "e = max (expo x - 52) (- 1074)"
  have "x < 2 powi 53" using assms(2) by simp
  then have "expo x < 53" by (rule expo_less [OF assms(1)])
  then have e: "e \<le> 0" by (simp add: e_def)
  have "x / 2 powi e \<le> of_int k / 2 powi e"
    using assms(3) by (simp add: divide_right_mono)
  then have "round_even (x / 2 powi e) \<le> k * 2 ^ nat (- e)"
    unfolding grid_int [OF e] by (rule round_even_le)
  then have "(of_int (round_even (x / 2 powi e)) :: rat) \<le> of_int (k * 2 ^ nat (- e))"
    by (simp only: of_int_le_iff)
  then have A: "(of_int (round_even (x / 2 powi e)) :: rat) * 2 powi e \<le> of_int (k * 2 ^ nat (- e)) * 2 powi e"
    by (rule mult_right_mono) (rule less_imp_le, rule powi_pos)
  have B: "(of_int (k * 2 ^ nat (- e)) :: rat) * 2 powi e = of_int k"
    unfolding grid_int [OF e, of k, symmetric] by simp
  have C: "fl64 x = of_int (round_even (x / 2 powi e)) * 2 powi e"
    using fl64_grid [OF assms(1)] by (simp add: e_def)
  show ?thesis using A unfolding B C .
qed

lemma fl64_of_int:
  assumes "0 \<le> n" "n < 2 ^ 53"
  shows "fl64 (of_int n) = of_int n"
proof (cases "n = 0")
  case True then show ?thesis by simp
next
  case False
  with assms have x: "(0::rat) < of_int n" by simp
  have b: "(of_int n :: rat) < 2 ^ 53"
    using assms(2) by (metis of_int_less_iff of_int_numeral of_int_power)
  show ?thesis
    using fl64_ge_int [OF x b, of n] fl64_le_int [OF x b, of n] by simp
qed

section \<open>The per-pixel loop\<close>

lemma pixelAt_pixelOf: "4 * k + 3 < length xs \<Longrightarrow> pixelAt xs (4 * k) = Some (pixelOf xs k)"
  by (simp add: pixelAt_def pixelOf_def)

lemma setPixel_Some:
  assumes "4 * m + 3 < length dst" "setPixel dst (4 * m) p = Some dst'"
  shows "length dst' = length dst" "pixelOf dst' m = p" "\<And>k. k \<noteq> m \<Longrightarrow> pixelOf dst' k = pixelOf dst k"
proof -
  obtain r g b a where p: "p = (r, g, b, a)" by (cases p)
  have d: "dst' = dst[4 * m := r, 4 * m + 1 := g, 4 * m + 2 := b, 4 * m + 3 := a]"
    using assms by (simp add: setPixel_def p)
  show "length dst' = length dst" by (simp add: d)
  show "pixelOf dst' m = p" using assms(1) by (simp add: d p pixelOf_def)
  fix k assume "k \<noteq> m"
  then have "4 * k \<noteq> 4 * m" "4 * k \<noteq> 4 * m + 1" "4 * k \<noteq> 4 * m + 2" "4 * k \<noteq> 4 * m + 3"
    "4 * k + 1 \<noteq> 4 * m" "4 * k + 1 \<noteq> 4 * m + 1" "4 * k + 1 \<noteq> 4 * m + 2" "4 * k + 1 \<noteq> 4 * m + 3"
    "4 * k + 2 \<noteq> 4 * m" "4 * k + 2 \<noteq> 4 * m + 1" "4 * k + 2 \<noteq> 4 * m + 2" "4 * k + 2 \<noteq> 4 * m + 3"
    "4 * k + 3 \<noteq> 4 * m" "4 * k + 3 \<noteq> 4 * m + 1" "4 * k + 3 \<noteq> 4 * m + 2" "4 * k + 3 \<noteq> 4 * m + 3"
    by presburger+
  then show "pixelOf dst' k = pixelOf dst k"
    by (simp add: d pixelOf_def)
qed

lemma pixelLoop_pixels:
  assumes "length src = 4 * n" "length dst = length src" "m \<le> n"
  shows "\<exists>out. pixelLoop f src (4 * m) dst = Inr out \<and> length out = length src \<and>
           (\<forall>k. k < m \<longrightarrow> pixelOf out k = pixelOf dst k) \<and>
           (\<forall>k. m \<le> k \<and> k < n \<longrightarrow> pixelOf out k = f (pixelOf src k))"
  using assms
proof (induction "n - m" arbitrary: m dst)
  case 0
  then have "m = n" by simp
  then show ?case using 0 by (auto simp: pixelLoop.simps)
next
  case (Suc d)
  then have mn: "m < n" by simp
  then have in_src: "4 * m + 3 < length src" using Suc.prems by simp
  then have in_dst: "4 * m + 3 < length dst" using Suc.prems by simp
  obtain dst' where s: "setPixel dst (4 * m) (f (pixelOf src m)) = Some dst'"
    using in_dst by (cases "f (pixelOf src m)") (simp add: setPixel_def)
  note S = setPixel_Some [OF in_dst s]
  have step: "pixelLoop f src (4 * m) dst = pixelLoop f src (4 * Suc m) dst'"
    using in_src by (subst pixelLoop.simps) (simp add: pixelAt_pixelOf s add.commute)
  have "d = n - Suc m" using Suc.hyps(2) by simp
  from Suc.hyps(1) [OF this Suc.prems(1)] S(1) Suc.prems(2) mn
  obtain out where out: "pixelLoop f src (4 * Suc m) dst' = Inr out" "length out = length src"
      "\<forall>k. k < Suc m \<longrightarrow> pixelOf out k = pixelOf dst' k"
      "\<forall>k. Suc m \<le> k \<and> k < n \<longrightarrow> pixelOf out k = f (pixelOf src k)"
    by (metis Suc_leI)
  have "\<forall>k. k < m \<longrightarrow> pixelOf out k = pixelOf dst k"
    using out(3) S(3) by (metis less_Suc_eq nat_neq_iff)
  moreover have "\<forall>k. m \<le> k \<and> k < n \<longrightarrow> pixelOf out k = f (pixelOf src k)"
    using out(3,4) S(2) by (metis Suc_leI le_neq_implies_less lessI)
  ultimately show ?case using step out(1,2) by simp
qed

lemma pixelLoop_aligned:
  assumes "length src mod 4 = 0"
  shows "\<exists>out. pixelLoop f src 0 (replicate (length src) 0) = Inr out \<and> length out = length src \<and>
           (\<forall>k. 4 * k + 3 < length src \<longrightarrow> pixelOf out k = f (pixelOf src k))"
proof -
  from assms have "4 dvd length src" by presburger
  then obtain n where n: "length src = 4 * n" by (auto elim: dvdE)
  from pixelLoop_pixels [OF n, of "replicate (length src) 0" 0 f]
  obtain out where "pixelLoop f src 0 (replicate (length src) 0) = Inr out" "length out = length src"
      "\<forall>k. k < n \<longrightarrow> pixelOf out k = f (pixelOf src k)"
    by auto
  moreover have "\<And>k. 4 * k + 3 < length src \<Longrightarrow> k < n" using n by simp
  ultimately show ?thesis by blast
qed

section \<open>Buffers whose length is not a multiple of 4\<close>

text \<open>
  C8. A buffer whose length is not a multiple of 4 is returned as it is, without a panic,
  by each of the four filters and hence by every filter of the registry, whatever the
  width and the parameters.
\<close>

theorem unaligned_buffer_returned_unchanged:
  assumes "length src mod 4 \<noteq> 0"
  shows "ApplyGrayScale src width params = Inr src \<and>
         ApplyBrightness src width params = Inr src \<and>
         ApplyContrast src width params = Inr src \<and>
         ApplyBlur src width params = Inr src \<and>
         (\<forall>t f. FilterRegistry t = Some f \<longrightarrow> f src width params = Inr src)"
  using assms
  by (auto simp: ApplyGrayScale_def ApplyBrightness_def ApplyContrast_def ApplyBlur_def
        FilterRegistry_def split: if_splits)

theorem unaligned_buffer_returned_unchanged_witness:
  "length [1, 2, 3 :: uint8] mod 4 \<noteq> 0 \<and>
   ApplyBlur [1, 2, 3] 0 \<lparr>BlurRadius = 2, Brightness = 6 / 5, Contrast = 11 / 10, Quality = 95\<rparr>
     = Inr [1, 2, 3] \<and>
   FilterRegistry ''contrast'' = Some ApplyContrast \<and>
   ApplyContrast [1, 2, 3] 0 \<lparr>BlurRadius = 2, Brightness = 6 / 5, Contrast = 11 / 10, Quality = 95\<rparr>
     = Inr [1, 2, 3]"
  using unaligned_buffer_returned_unchanged
    [of "[1, 2, 3]" 0 "\<lparr>BlurRadius = 2, Brightness = 6 / 5, Contrast = 11 / 10, Quality = 95\<rparr>"]
  by (simp add: FilterRegistry_def FilterBlur_def FilterBrightness_def FilterConstrast_def)

section \<open>Contrast\<close>

lemma fl64_numeral: "(numeral k :: int) < 2 ^ 53 \<Longrightarrow> fl64 (numeral k) = numeral k"
  using fl64_of_int [of "numeral k"] by simp

lemma fl64_of_nat: "n < 2 ^ 53 \<Longrightarrow> fl64 (of_nat n) = of_nat n"
  using fl64_of_int [of "int n"] by simp

lemma clamp_of_nat: "n < 256 \<Longrightarrow> clamp (of_nat n) = of_nat n"
proof -
  assume "n < 256"
  then have "n \<le> 255" by simp
  then have "(of_nat n :: rat) \<le> of_nat 255" by (simp only: of_nat_le_iff)
  then show ?thesis by (simp add: clamp_def min_def max_def)
qed

lemma clamp_of_nat_big: "255 \<le> n \<Longrightarrow> clamp (of_nat n) = 255"
proof -
  assume "255 \<le> n"
  then have "(of_nat 255 :: rat) \<le> of_nat n" by (simp only: of_nat_le_iff)
  then show ?thesis by (simp add: clamp_def min_def max_def)
qed

lemma uint8_of_float64_of_nat: "uint8_of_float64 (of_nat n) = of_nat n"
  by (simp add: uint8_of_float64_def truncate_float64_def)

lemma unat_sub_128:
  fixes c :: uint8
  shows "unat (c - 128) = (if 128 \<le> c then unat c - 128 else unat c + 128)"
  using unat_sub_if_size [of c 128]
  by (simp add: word_le_nat_alt word_size)

lemma contrastChannel_one:
  "contrastChannel 1 c = (if 128 \<le> c then c else 255)"
proof -
  define d where "d = unat (c - 128)"
  have d: "d < 256" using unsigned_less [of "c - 128", where ?'a = nat] by (simp add: d_def)
  have m: "fmul (float64_of_uint8 (c - 128)) 1 = of_nat d"
    unfolding fmul_def float64_of_uint8_def d_def [symmetric]
    using fl64_of_nat [of d] d by simp
  have a: "fadd (of_nat d) 128 = of_nat (d + 128)"
    using fl64_of_nat [of "d + 128"] d by (simp add: fadd_def)
  have v: "contrastChannel 1 c = uint8_of_float64 (clamp (of_nat (d + 128)))"
    by (simp only: contrastChannel_def m a)
  have dd: "d = (if 128 \<le> c then unat c - 128 else unat c + 128)"
    unfolding d_def by (rule unat_sub_128)
  show ?thesis
  proof (cases "128 \<le> c")
    case True
    then have "128 \<le> unat c" by (simp add: word_le_nat_alt)
    then have e: "d + 128 = unat c" using dd True by simp
    have "unat c < 256" using unsigned_less [of c, where ?'a = nat] by simp
    then show ?thesis using True
      by (simp only: v e clamp_of_nat uint8_of_float64_of_nat) simp
  next
    case False
    have "255 \<le> d + 128" using dd False by simp
    then show ?thesis using False
      by (simp only: v clamp_of_nat_big) (simp add: uint8_of_float64_def truncate_float64_def)
  qed
qed

text \<open>
  C1. With contrast factor 1.0 the pixel (200, 50, 10, 255) does not stay as it is: the
  channels below 128 wrap around in \<^verbatim>\<open>src[i]-128\<close> and are clamped to 255.
\<close>

theorem ApplyContrast_factor_one_not_identity:
  "ApplyContrast [200, 50, 10, 255] 1
     \<lparr>BlurRadius = 2, Brightness = 1, Contrast = 1, Quality = 95\<rparr> = Inr [200, 255, 255, 255]"
  by (simp add: ApplyContrast_def pixelLoop.simps pixelAt_def setPixel_def contrastPixel_def
        contrastChannel_one)

section \<open>Grayscale\<close>

lemma fl64_abs_err_num:
  assumes "0 \<le> x" "x < 256"
  shows "\<bar>fl64 x - x\<bar> \<le> 1 / 70368744177664"
  using fl64_abs_err [OF assms] by simp

lemma fmul_const_err:
  assumes k: "0 \<le> k" "k \<le> 9 / 10" and r: "r \<le> 255"
  shows "0 \<le> fmul (fl64 k) (of_nat r)"
    and "\<bar>fmul (fl64 k) (of_nat r) - k * of_nat r\<bar> \<le> 256 / 70368744177664"
proof -
  define c where "c = fl64 k"
  define R :: rat where "R = of_nat r"
  have R: "0 \<le> R" "R \<le> 255"
    using r unfolding R_def by (simp, metis of_nat_le_iff of_nat_numeral)
  have c0: "0 \<le> c" unfolding c_def using k(1) by (rule fl64_nonneg)
  have ce: "\<bar>c - k\<bar> \<le> 1 / 70368744177664" unfolding c_def using k by (intro fl64_abs_err_num) simp_all
  then have c1: "c \<le> 1" using k(2) by linarith
  have cR0: "0 \<le> c * R" using c0 R(1) by simp
  have "c * R \<le> 1 * 255" using c0 c1 R by (intro mult_mono) simp_all
  then have cR: "c * R < 256" by simp
  have e1: "\<bar>fl64 (c * R) - c * R\<bar> \<le> 1 / 70368744177664" using cR0 cR by (rule fl64_abs_err_num)
  have "\<bar>c * R - k * R\<bar> = \<bar>c - k\<bar> * R" using R(1) by (simp add: abs_mult left_diff_distrib [symmetric])
  also have "\<dots> \<le> 1 / 70368744177664 * 255" using ce R by (intro mult_mono) simp_all
  finally have e2: "\<bar>c * R - k * R\<bar> \<le> 255 / 70368744177664" by simp
  show "0 \<le> fmul (fl64 k) (of_nat r)"
    unfolding fmul_def c_def [symmetric] R_def [symmetric] using cR0 by (rule fl64_nonneg)
  show "\<bar>fmul (fl64 k) (of_nat r) - k * of_nat r\<bar> \<le> 256 / 70368744177664"
    unfolding fmul_def c_def [symmetric] R_def [symmetric] using e1 e2 by linarith
qed

lemma grayValue_err:
  assumes "r \<le> 255" "g \<le> 255" "b \<le> 255"
  shows "0 \<le> grayValue r g b"
    and "\<bar>grayValue r g b - of_nat (299 * r + 587 * g + 114 * b) / 1000\<bar> \<le> 770 / 70368744177664"
proof -
  define p1 where "p1 = fmul (fl64 (299 / 1000)) (of_nat r)"
  define p2 where "p2 = fmul (fl64 (587 / 1000)) (of_nat g)"
  define p3 where "p3 = fmul (fl64 (114 / 1000)) (of_nat b)"
  define R :: rat where "R = of_nat r"
  define G :: rat where "G = of_nat g"
  define B :: rat where "B = of_nat b"
  have RGB: "0 \<le> R" "R \<le> 255" "0 \<le> G" "G \<le> 255" "0 \<le> B" "B \<le> 255"
    using assms unfolding R_def G_def B_def
    by (simp, metis of_nat_le_iff of_nat_numeral)+
  have P1: "0 \<le> p1" "\<bar>p1 - 299 / 1000 * R\<bar> \<le> 256 / 70368744177664"
    unfolding p1_def R_def using fmul_const_err [of "299 / 1000" r] assms by simp_all
  have P2: "0 \<le> p2" "\<bar>p2 - 587 / 1000 * G\<bar> \<le> 256 / 70368744177664"
    unfolding p2_def G_def using fmul_const_err [of "587 / 1000" g] assms by simp_all
  have P3: "0 \<le> p3" "\<bar>p3 - 114 / 1000 * B\<bar> \<le> 256 / 70368744177664"
    unfolding p3_def B_def using fmul_const_err [of "114 / 1000" b] assms by simp_all
  define s1 where "s1 = fl64 (p1 + p2)"
  have u1: "p1 + p2 < 256" using P1 P2 RGB by linarith
  have l1: "0 \<le> p1 + p2" using P1(1) P2(1) by simp
  have S1: "\<bar>s1 - (p1 + p2)\<bar> \<le> 1 / 70368744177664" "0 \<le> s1"
    unfolding s1_def using fl64_abs_err_num [OF l1 u1] fl64_nonneg [OF l1] by blast+
  have u2: "s1 + p3 < 256" using S1 P1 P2 P3 RGB by linarith
  have l2: "0 \<le> s1 + p3" using S1(2) P3(1) by simp
  have S2: "\<bar>fl64 (s1 + p3) - (s1 + p3)\<bar> \<le> 1 / 70368744177664" "0 \<le> fl64 (s1 + p3)"
    using fl64_abs_err_num [OF l2 u2] fl64_nonneg [OF l2] by blast+
  have gv: "grayValue r g b = fl64 (s1 + p3)"
    by (simp add: grayValue_def fadd_def p1_def p2_def p3_def s1_def)
  have E: "(of_nat (299 * r + 587 * g + 114 * b) :: rat) / 1000 = 299 / 1000 * R + 587 / 1000 * G + 114 / 1000 * B"
    by (simp add: R_def G_def B_def)
  show "0 \<le> grayValue r g b" using S2(2) gv by simp
  show "\<bar>grayValue r g b - of_nat (299 * r + 587 * g + 114 * b) / 1000\<bar> \<le> 770 / 70368744177664"
    unfolding gv E using S1(1) S2(1) P1(2) P2(2) P3(2) by linarith
qed

lemma grayValue_floor:
  assumes "r \<le> 255" "g \<le> 255" "b \<le> 255"
  defines "n \<equiv> 299 * r + 587 * g + 114 * b"
  shows "\<lfloor>grayValue r g b\<rfloor> = int (n div 1000) \<or>
         (1000 dvd n \<and> \<lfloor>grayValue r g b\<rfloor> + 1 = int (n div 1000))"
    and "0 \<le> \<lfloor>grayValue r g b\<rfloor>" and "\<lfloor>grayValue r g b\<rfloor> \<le> 255"
proof -
  define v where "v = grayValue r g b"
  define q where "q = n div 1000"
  define m where "m = n mod 1000"
  have n: "n = 1000 * q + m" and m: "m < 1000" by (simp_all add: q_def m_def)
  have "n \<le> 255000" using assms(1-3) by (simp add: n_def)
  then have q255: "q \<le> 255" unfolding q_def by simp
  have E: "(of_nat n :: rat) / 1000 = of_nat q + of_nat m / 1000"
    by (simp add: n)
  have v0: "0 \<le> v" and ve: "\<bar>v - (of_nat q + of_nat m / 1000)\<bar> \<le> 770 / 70368744177664"
    using grayValue_err [OF assms(1-3)] unfolding v_def n_def [symmetric] E by simp_all
  have lo: "of_nat q + of_nat m / 1000 - 770 / 70368744177664 \<le> v"
    and hi: "v \<le> of_nat q + of_nat m / 1000 + 770 / 70368744177664"
    using ve by linarith+
  show "0 \<le> \<lfloor>grayValue r g b\<rfloor>" using v0 by (simp add: v_def)
  have main: "\<lfloor>v\<rfloor> = int q \<or> (m = 0 \<and> \<lfloor>v\<rfloor> + 1 = int q)"
  proof (cases "m = 0")
    case True
    then have m0: "(of_nat m :: rat) = 0" by simp
    show ?thesis
    proof (cases "of_nat q \<le> v")
      case True
      have "v < of_nat q + 1" using hi m0 by linarith
      then have "\<lfloor>v\<rfloor> = int q" using True by (intro floor_unique) simp_all
      then show ?thesis by simp
    next
      case False
      have "of_nat q - 1 \<le> v" using lo m0 by linarith
      then have "\<lfloor>v\<rfloor> = int q - 1" using False by (intro floor_unique) simp_all
      then show ?thesis using \<open>m = 0\<close> by simp
    qed
  next
    case False
    then have "1 \<le> m" "m \<le> 999" using m by simp_all
    then have M: "(1::rat) \<le> of_nat m" "(of_nat m :: rat) \<le> 999"
      by (metis of_nat_le_iff of_nat_1, metis of_nat_le_iff of_nat_numeral)
    have "of_nat q \<le> v" "v < of_nat q + 1" using lo hi M by linarith+
    then have "\<lfloor>v\<rfloor> = int q" by (intro floor_unique) simp_all
    then show ?thesis by simp
  qed
  moreover have "m = 0 \<longleftrightarrow> 1000 dvd n" by (simp add: m_def dvd_eq_mod_eq_0)
  ultimately show "\<lfloor>grayValue r g b\<rfloor> = int (n div 1000) \<or>
         (1000 dvd n \<and> \<lfloor>grayValue r g b\<rfloor> + 1 = int (n div 1000))"
    by (simp add: v_def q_def)
  have "\<lfloor>v\<rfloor> \<le> int q" using main by auto
  then show "\<lfloor>grayValue r g b\<rfloor> \<le> 255" using q255 unfolding v_def by linarith
qed

lemma unat_le_255: "unat (c :: uint8) \<le> 255"
  using unsigned_less [of c, where ?'a = nat] by simp

lemma grayPixel_level:
  fixes r g b a :: uint8
  defines "n \<equiv> 299 * unat r + 587 * unat g + 114 * unat b"
  shows "\<exists>w. grayPixel (r, g, b, a) = (w, w, w, a) \<and>
           (unat w = n div 1000 \<or> (1000 dvd n \<and> unat w + 1 = n div 1000))"
proof -
  define v where "v = grayValue (unat r) (unat g) (unat b)"
  define w :: uint8 where "w = word_of_int \<lfloor>v\<rfloor>"
  note F = grayValue_floor [OF unat_le_255 [of r] unat_le_255 [of g] unat_le_255 [of b],
      folded v_def n_def]
  have v0: "0 \<le> v" using F(2) by simp
  have gp: "grayPixel (r, g, b, a) = (w, w, w, a)"
    using v0 by (simp add: grayPixel_def Let_def w_def v_def grayValue_def float64_of_uint8_def
        uint8_of_float64_def truncate_float64_def)
  have "unat w = nat \<lfloor>v\<rfloor>"
    unfolding w_def using F(2,3) by (simp add: unat_eq_nat_uint uint_word_of_int)
  then have "unat w = n div 1000 \<or> (1000 dvd n \<and> unat w + 1 = n div 1000)"
    using F(1,2) by auto
  with gp show ?thesis by blast
qed

lemma grayPixel_grayValue:
  "grayPixel (r, g, b, a) =
     (let w = uint8_of_float64 (grayValue (unat r) (unat g) (unat b)) in (w, w, w, a))"
  by (simp add: grayPixel_def grayValue_def float64_of_uint8_def)

lemma c299: "fl64 (299 / 1000) = 5386305154335113 / 18014398509481984" by code_simp
lemma c587: "fl64 (587 / 1000) = 2643612981266481 / 4503599627370496" by code_simp
lemma c114: "fl64 (114 / 1000) = 8214565720323785 / 72057594037927936" by code_simp
lemma r299: "fl64 (5386305154335113 / 18014398509481984) = 5386305154335113 / 18014398509481984"
  by code_simp
lemma r587: "fl64 (2643612981266481 / 4503599627370496) = 2643612981266481 / 4503599627370496"
  by code_simp
lemma r114: "fl64 (8214565720323785 / 72057594037927936) = 8214565720323785 / 72057594037927936"
  by code_simp
lemma s886: "fl64 (5386305154335113 / 18014398509481984 + 2643612981266481 / 4503599627370496)
    = 3990189269850259 / 4503599627370496"
  by code_simp
lemma s1000: "fl64 (3990189269850259 / 4503599627370496 + 8214565720323785 / 72057594037927936)
    = 9007199254740991 / 9007199254740992"
  by code_simp

lemma grayValue_111: "grayValue 1 1 1 = 9007199254740991 / 9007199254740992"
  unfolding grayValue_def fadd_def fmul_def
  by (simp only: of_nat_1 mult_1_right c299 c587 c114 r299 r587 r114 s886 s1000)

lemma grayPixel_111: "grayPixel (1, 1, 1, a) = (0, 0, 0, a)"
proof -
  have "unat (1 :: uint8) = 1" by simp
  then have "grayPixel (1, 1, 1, a) =
      (let w = uint8_of_float64 (9007199254740991 / 9007199254740992) in (w, w, w, a))"
    by (simp only: grayPixel_grayValue grayValue_111)
  also have "uint8_of_float64 (9007199254740991 / 9007199254740992) = 0"
  proof -
    have "\<lfloor>9007199254740991 / 9007199254740992 :: rat\<rfloor> = 0"
      by (intro floor_unique) simp_all
    then show ?thesis by (simp add: uint8_of_float64_def truncate_float64_def)
  qed
  finally show ?thesis by simp
qed

lemma grayPixel_num:
  fixes r g b a :: uint8
  assumes "\<not> 1000 dvd (299 * unat r + 587 * unat g + 114 * unat b)"
  shows "grayPixel (r, g, b, a) =
    (of_nat ((299 * unat r + 587 * unat g + 114 * unat b) div 1000),
     of_nat ((299 * unat r + 587 * unat g + 114 * unat b) div 1000),
     of_nat ((299 * unat r + 587 * unat g + 114 * unat b) div 1000), a)"
proof -
  from grayPixel_level [of r g b a] assms
  obtain w where w: "grayPixel (r, g, b, a) = (w, w, w, a)"
     "unat w = (299 * unat r + 587 * unat g + 114 * unat b) div 1000"
    by auto
  have "w = of_nat (unat w)" by simp
  then show ?thesis using w by simp
qed

lemma g1: "grayPixel (10, 20, 30, 255) = (18, 18, 18, 255)"
  using grayPixel_num [of 10 20 30 255] by simp
lemma g2: "grayPixel (40, 50, 60, 0) = (48, 48, 48, 0)"
  using grayPixel_num [of 40 50 60 0] by simp
lemma g3: "grayPixel (1, 1, 2, 255) = (1, 1, 1, 255)"
  using grayPixel_num [of 1 1 2 255] by simp

lemma ApplyGrayScale_pixels:
  assumes "length src mod 4 = 0"
  shows "\<exists>out. ApplyGrayScale src width params = Inr out \<and> length out = length src \<and>
           (\<forall>k. 4 * k + 3 < length src \<longrightarrow> pixelOf out k = grayPixel (pixelOf src k))"
  using pixelLoop_aligned [OF assms, of grayPixel] assms by (simp add: ApplyGrayScale_def)

lemma grayPixel_pixelOf:
  "\<exists>w. grayPixel (pixelOf src k) = (w, w, w, src ! (4 * k + 3)) \<and>
        (unat w = lumaNum src k div 1000 \<or>
         (1000 dvd lumaNum src k \<and> unat w + 1 = lumaNum src k div 1000))"
  unfolding pixelOf_def lumaNum_def by (rule grayPixel_level)

lemma ApplyGrayScale_example:
  "ApplyGrayScale [10, 20, 30, 255, 40, 50, 60, 0] 2 params = Inr [18, 18, 18, 255, 48, 48, 48, 0]"
  by (simp add: ApplyGrayScale_def pixelLoop.simps pixelAt_def setPixel_def g1 g2)

lemma ApplyGrayScale_112: "ApplyGrayScale [1, 1, 2, 255] 1 params = Inr [1, 1, 1, 255]"
  by (simp add: ApplyGrayScale_def pixelLoop.simps pixelAt_def setPixel_def g3)

lemma ApplyGrayScale_111: "ApplyGrayScale [1, 1, 1, 255] 1 params = Inr [0, 0, 0, 255]"
  by (simp add: ApplyGrayScale_def pixelLoop.simps pixelAt_def setPixel_def grayPixel_111)

text \<open>
  C3 (as amended). On a buffer whose length is a multiple of 4 the grayscale filter returns
  a buffer of the same length in which every pixel has R = G = B = gray and its alpha byte
  unchanged, where gray is the float64 value of \<^verbatim>\<open>0.299*R + 0.587*G + 0.114*B\<close> truncated
  to a byte: it is \<open>floor ((299 R + 587 G + 114 B) / 1000)\<close> whenever 1000 does not divide
  \<open>299 R + 587 G + 114 B\<close>, and that floor or one less when it does. On the 2-pixel buffer
  [(10,20,30,255),(40,50,60,0)] with width 2 the result is [(18,18,18,255),(48,48,48,0)].
\<close>

theorem ApplyGrayScale_levels:
  "(length src mod 4 = 0 \<longrightarrow>
      (\<exists>out. ApplyGrayScale src width params = Inr out \<and> length out = length src \<and>
         (\<forall>k. 4 * k + 3 < length src \<longrightarrow>
            (\<exists>w. pixelOf out k = (w, w, w, src ! (4 * k + 3)) \<and>
                 (unat w = lumaNum src k div 1000 \<or>
                  (1000 dvd lumaNum src k \<and> unat w + 1 = lumaNum src k div 1000)))))) \<and>
   ApplyGrayScale [10, 20, 30, 255, 40, 50, 60, 0] 2 params
     = Inr [18, 18, 18, 255, 48, 48, 48, 0]"
proof (intro conjI impI)
  assume a: "length src mod 4 = 0"
  from ApplyGrayScale_pixels [OF a, of width params]
  obtain out where out: "ApplyGrayScale src width params = Inr out" "length out = length src"
      "\<forall>k. 4 * k + 3 < length src \<longrightarrow> pixelOf out k = grayPixel (pixelOf src k)"
    by blast
  show "\<exists>out. ApplyGrayScale src width params = Inr out \<and> length out = length src \<and>
         (\<forall>k. 4 * k + 3 < length src \<longrightarrow>
            (\<exists>w. pixelOf out k = (w, w, w, src ! (4 * k + 3)) \<and>
                 (unat w = lumaNum src k div 1000 \<or>
                  (1000 dvd lumaNum src k \<and> unat w + 1 = lumaNum src k div 1000))))"
    using out grayPixel_pixelOf [of src] by (intro exI [of _ out]) simp
next
  show "ApplyGrayScale [10, 20, 30, 255, 40, 50, 60, 0] 2 params
     = Inr [18, 18, 18, 255, 48, 48, 48, 0]"
    by (rule ApplyGrayScale_example)
qed

theorem ApplyGrayScale_levels_witness:
  "length [1, 1, 2, 255 :: uint8] mod 4 = 0 \<and>
   (\<exists>out. ApplyGrayScale [1, 1, 2, 255] 1
             \<lparr>BlurRadius = 2, Brightness = 1, Contrast = 1, Quality = 95\<rparr> = Inr out \<and>
      length out = 4 \<and>
      (\<exists>w. pixelOf out 0 = (w, w, w, 255) \<and> unat w = 1))"
proof -
  let ?ps = "\<lparr>BlurRadius = 2, Brightness = 1, Contrast = 1, Quality = 95\<rparr>"
  have h: "length [1, 1, 2, 255 :: uint8] mod 4 = 0" by simp
  from ApplyGrayScale_levels [of "[1, 1, 2, 255]" 1 ?ps, THEN conjunct1, rule_format, OF h]
  obtain out where out: "ApplyGrayScale [1, 1, 2, 255] 1 ?ps = Inr out" "length out = 4"
    and px: "\<forall>k. 4 * k + 3 < 4 \<longrightarrow>
          (\<exists>w. pixelOf out k = (w, w, w, [1, 1, 2, 255 :: uint8] ! (4 * k + 3)) \<and>
               (unat w = lumaNum [1, 1, 2, 255] k div 1000 \<or>
                (1000 dvd lumaNum [1, 1, 2, 255] k \<and> unat w + 1 = lumaNum [1, 1, 2, 255] k div 1000)))"
    by auto
  from px [rule_format, of 0] have "\<exists>w. pixelOf out 0 = (w, w, w, 255) \<and> unat w = 1"
    by (simp add: lumaNum_def)
  with out h show ?thesis by blast
qed

theorem ApplyGrayScale_example_counterexample:
  "ApplyGrayScale [10, 20, 30, 255, 40, 50, 60, 0] 2
      \<lparr>BlurRadius = 2, Brightness = 1, Contrast = 1, Quality = 95\<rparr>
     \<noteq> Inr [18, 18, 18, 255, 47, 47, 47, 0] \<and>
   ApplyGrayScale [1, 1, 1, 255] 1
      \<lparr>BlurRadius = 2, Brightness = 1, Contrast = 1, Quality = 95\<rparr>
     = Inr [0, 0, 0, 255]"
  by (simp add: ApplyGrayScale_example ApplyGrayScale_111)

text \<open>
  C7 (as amended). On a buffer whose length is a multiple of 4, a second application of the
  grayscale filter keeps the length and every alpha byte, and moves each gray level by at
  most one: the gray level of a pixel after two applications is its level after one
  application or one less.
\<close>

theorem ApplyGrayScale_twice:
  assumes "length src mod 4 = 0"
  shows "\<exists>once twice.
           ApplyGrayScale src width params = Inr once \<and>
           ApplyGrayScale once width params = Inr twice \<and>
           length twice = length once \<and>
           (\<forall>k. 4 * k + 3 < length once \<longrightarrow>
              (\<exists>v w. pixelOf once k = (v, v, v, src ! (4 * k + 3)) \<and>
                     pixelOf twice k = (w, w, w, src ! (4 * k + 3)) \<and>
                     (unat w = unat v \<or> unat w + 1 = unat v)))"
proof -
  from ApplyGrayScale_pixels [OF assms, of width params]
  obtain once where once: "ApplyGrayScale src width params = Inr once" "length once = length src"
      "\<forall>k. 4 * k + 3 < length src \<longrightarrow> pixelOf once k = grayPixel (pixelOf src k)"
    by blast
  have l1: "length once mod 4 = 0" using assms once(2) by simp
  from ApplyGrayScale_pixels [OF l1, of width params]
  obtain twice where twice: "ApplyGrayScale once width params = Inr twice" "length twice = length once"
      "\<forall>k. 4 * k + 3 < length once \<longrightarrow> pixelOf twice k = grayPixel (pixelOf once k)"
    by blast
  have "\<exists>v w. pixelOf once k = (v, v, v, src ! (4 * k + 3)) \<and>
               pixelOf twice k = (w, w, w, src ! (4 * k + 3)) \<and>
               (unat w = unat v \<or> unat w + 1 = unat v)"
    if k: "4 * k + 3 < length once" for k
  proof -
    from grayPixel_pixelOf [of src k] obtain v where
      v: "grayPixel (pixelOf src k) = (v, v, v, src ! (4 * k + 3))" by blast
    then have p1: "pixelOf once k = (v, v, v, src ! (4 * k + 3))" using once(2,3) k by simp
    from grayPixel_level [of v v v "src ! (4 * k + 3)"] obtain w where
      w: "grayPixel (v, v, v, src ! (4 * k + 3)) = (w, w, w, src ! (4 * k + 3))"
         "unat w = (299 * unat v + 587 * unat v + 114 * unat v) div 1000 \<or>
          unat w + 1 = (299 * unat v + 587 * unat v + 114 * unat v) div 1000"
      by blast
    have "(299 * unat v + 587 * unat v + 114 * unat v) div 1000 = unat v" by simp
    then have "unat w = unat v \<or> unat w + 1 = unat v" using w(2) by simp
    moreover have "pixelOf twice k = (w, w, w, src ! (4 * k + 3))"
      using twice(3) k p1 w(1) by simp
    ultimately show ?thesis using p1 by blast
  qed
  then show ?thesis using once(1) twice(1,2) by blast
qed

theorem ApplyGrayScale_twice_witness:
  "length [1, 1, 2, 255 :: uint8] mod 4 = 0 \<and>
   (\<exists>once twice.
      ApplyGrayScale [1, 1, 2, 255] 1
         \<lparr>BlurRadius = 2, Brightness = 1, Contrast = 1, Quality = 95\<rparr> = Inr once \<and>
      ApplyGrayScale once 1
         \<lparr>BlurRadius = 2, Brightness = 1, Contrast = 1, Quality = 95\<rparr> = Inr twice \<and>
      length twice = length once)"
proof -
  have h: "length [1, 1, 2, 255 :: uint8] mod 4 = 0" by simp
  from ApplyGrayScale_twice [OF h, of 1 "\<lparr>BlurRadius = 2, Brightness = 1, Contrast = 1, Quality = 95\<rparr>"]
  show ?thesis using h by blast
qed

theorem ApplyGrayScale_idempotent_counterexample:
  "ApplyGrayScale [1, 1, 2, 255] 1
      \<lparr>BlurRadius = 2, Brightness = 1, Contrast = 1, Quality = 95\<rparr> = Inr [1, 1, 1, 255] \<and>
   ApplyGrayScale [1, 1, 1, 255] 1
      \<lparr>BlurRadius = 2, Brightness = 1, Contrast = 1, Quality = 95\<rparr> = Inr [0, 0, 0, 255]"
  by (simp add: ApplyGrayScale_112 ApplyGrayScale_111)

section \<open>Rows of an RGBA image\<close>

lemma pixelAtI_int [simp]: "pixelAtI xs (int n) = pixelAt xs n"
  by (simp add: pixelAtI_def)

text \<open>Offsets inside a valid image.\<close>

lemma row_base_le:
  assumes "wf_RGBA img" "0 \<le> r" "r < Dy (Rect img)"
  shows "r * Stride img + 4 * Dx (Rect img) \<le> int (length (Pix img))" "0 \<le> Stride img"
proof -
  from assms have S: "0 \<le> Stride img" by (simp add: wf_RGBA_def)
  from assms have "r \<le> Dy (Rect img) - 1" by simp
  then have "r * Stride img \<le> (Dy (Rect img) - 1) * Stride img" using S by (rule mult_right_mono)
  moreover have "(Dy (Rect img) - 1) * Stride img + 4 * Dx (Rect img) \<le> int (length (Pix img))"
    using assms by (simp add: wf_RGBA_def)
  ultimately show "r * Stride img + 4 * Dx (Rect img) \<le> int (length (Pix img))" by linarith
  show "0 \<le> Stride img" by (rule S)
qed

lemma PixOffset_row:
  "PixOffset img (MinX (Rect img) + int x) (MinY (Rect img) + r) = r * Stride img + 4 * int x"
  by (simp add: PixOffset_def)

lemma PointIn_row:
  assumes "0 \<le> r" "r < Dy (Rect img)" "int x < Dx (Rect img)"
  shows "PointIn (MinX (Rect img) + int x) (MinY (Rect img) + r) (Rect img)"
  using assms by (simp add: PointIn_def Dx_def Dy_def)

lemma rows_disjoint:
  fixes r r' S :: int
  assumes "r \<noteq> r'" "0 \<le> S"
  shows "r * S + S \<le> r' * S \<or> r' * S + S \<le> r * S"
proof (cases "r < r'")
  case True
  then have "r + 1 \<le> r'" by simp
  then have "(r + 1) * S \<le> r' * S" using assms(2) by (rule mult_right_mono)
  then show ?thesis by (simp add: algebra_simps)
next
  case False
  then have "r' + 1 \<le> r" using assms(1) by simp
  then have "(r' + 1) * S \<le> r * S" using assms(2) by (rule mult_right_mono)
  then show ?thesis by (simp add: algebra_simps)
qed

lemma row_offsets:
  assumes "wf_RGBA img" "0 \<le> r" "r < Dy (Rect img)" "int x < Dx (Rect img)"
  defines "b \<equiv> nat (r * Stride img)"
  shows "r * Stride img + 4 * int x = int (b + 4 * x)" "b + 4 * x + 3 < length (Pix img)"
proof -
  note B = row_base_le [OF assms(1-3)]
  have "0 \<le> r * Stride img" using assms(2) B(2) by simp
  then show "r * Stride img + 4 * int x = int (b + 4 * x)" by (simp add: b_def)
  then show "b + 4 * x + 3 < length (Pix img)" using B(1) assms(4) by linarith
qed

lemma PixOffset_nat:
  assumes "wf_RGBA img" "0 \<le> r" "r < Dy (Rect img)" "int x < Dx (Rect img)"
  shows "PixOffset img (MinX (Rect img) + int x) (MinY (Rect img) + r)
           = int (nat (r * Stride img) + 4 * x)"
  using row_offsets(1) [OF assms] by (simp only: PixOffset_row)

lemma RGBAAt_row:
  assumes "wf_RGBA img" "0 \<le> r" "r < Dy (Rect img)" "int x < Dx (Rect img)"
  defines "i \<equiv> nat (r * Stride img) + 4 * x"
  shows "RGBAAt img (MinX (Rect img) + int x) (MinY (Rect img) + r)
           = Inr (Pix img ! i, Pix img ! (i + 1), Pix img ! (i + 2), Pix img ! (i + 3))"
proof -
  have "i + 3 < length (Pix img)" unfolding i_def by (rule row_offsets(2) [OF assms(1-4)])
  then show ?thesis
    using PointIn_row [OF assms(2-4)]
    by (simp add: RGBAAt_def PixOffset_nat [OF assms(1-4)] i_def [symmetric] pixelAt_def)
qed

lemma SetRGBA_row:
  assumes "wf_RGBA img" "0 \<le> r" "r < Dy (Rect img)" "int x < Dx (Rect img)"
  defines "i \<equiv> nat (r * Stride img) + 4 * x"
  shows "SetRGBA img (MinX (Rect img) + int x) (MinY (Rect img) + r) (c1, c2, c3, c4)
           = Inr (img\<lparr>Pix := (Pix img)[i := c1, i + 1 := c2, i + 2 := c3, i + 3 := c4]\<rparr>)"
proof -
  have "i + 3 < length (Pix img)" unfolding i_def by (rule row_offsets(2) [OF assms(1-4)])
  then show ?thesis
    using PointIn_row [OF assms(2-4)]
    by (simp add: SetRGBA_def PixOffset_nat [OF assms(1-4)] i_def [symmetric] setPixel_def Let_def)
qed

lemma wf_RGBA_Pix_update:
  "wf_RGBA img \<Longrightarrow> length pix' = length (Pix img) \<Longrightarrow> wf_RGBA (img\<lparr>Pix := pix'\<rparr>)"
  by (simp add: wf_RGBA_def)

lemma nth_quad_update:
  assumes "j + 3 < length xs"
  shows "xs[j := p ! k, j + 1 := p ! (k + 1), j + 2 := p ! (k + 2), j + 3 := p ! (k + 3)] ! i
           = (if j \<le> i \<and> i < j + 4 then p ! (k + (i - j)) else xs ! i)"
proof -
  consider "i < j" | "i = j" | "i = j + 1" | "i = j + 2" | "i = j + 3" | "j + 4 \<le> i" by linarith
  then show ?thesis using assms by cases (simp_all add: nth_list_update)
qed

lemma in_quad_iff: "(b \<le> i \<and> (i - b) div 4 = x) \<longleftrightarrow> (b + 4 * x \<le> i \<and> i < b + 4 * x + 4)" for b i x :: nat
  by (auto simp: div_eq_dividend_iff)

lemma setRowLoop_row:
  assumes "wf_RGBA img" "0 \<le> r" "r < Dy (Rect img)" "\<forall>x\<in>set xs. int x < Dx (Rect img)"
    "int (length p) = Dx (Rect img) * 4"
  shows "\<exists>pix'. setRowLoop img (MinY (Rect img) + r) p xs = Inr (img\<lparr>Pix := pix'\<rparr>) \<and>
           length pix' = length (Pix img) \<and>
           (\<forall>i < length pix'. pix' ! i =
              (if nat (r * Stride img) \<le> i \<and> (i - nat (r * Stride img)) div 4 \<in> set xs
               then p ! (i - nat (r * Stride img)) else Pix img ! i))"
  using assms
proof (induction xs arbitrary: img)
  case Nil
  have "img\<lparr>Pix := Pix img\<rparr> = img" by simp
  then show ?case by (intro exI [of _ "Pix img"]) simp
next
  case (Cons x xs)
  define b where "b = nat (r * Stride img)"
  have x: "int x < Dx (Rect img)" using Cons.prems(4) by simp
  then have xp: "x * 4 + 3 < length p" using Cons.prems(5) by linarith
  define j where "j = b + 4 * x"
  have j: "j + 3 < length (Pix img)"
    unfolding j_def b_def by (rule row_offsets(2) [OF Cons.prems(1-3) x])
  define pix1 where "pix1 = (Pix img)[j := p ! (4 * x), j + 1 := p ! (4 * x + 1),
      j + 2 := p ! (4 * x + 2), j + 3 := p ! (4 * x + 3)]"
  define img1 where "img1 = img\<lparr>Pix := pix1\<rparr>"
  have l1: "length pix1 = length (Pix img)" by (simp add: pix1_def)
  have s1: "SetRGBA img (MinX (Rect img) + int x) (MinY (Rect img) + r)
      (p ! (4 * x), p ! (4 * x + 1), p ! (4 * x + 2), p ! (4 * x + 3)) = Inr img1"
    unfolding img1_def pix1_def j_def b_def by (rule SetRGBA_row [OF Cons.prems(1-3) x])
  have step: "setRowLoop img (MinY (Rect img) + r) p (x # xs)
      = setRowLoop img1 (MinY (Rect img1) + r) p xs"
    using xp s1 by (simp add: pixelAt_def mult.commute img1_def)
  have wf1: "wf_RGBA img1" unfolding img1_def using Cons.prems(1) l1 by (rule wf_RGBA_Pix_update)
  have R1: "Rect img1 = Rect img" "Stride img1 = Stride img" "Pix img1 = pix1"
    by (simp_all add: img1_def)
  from Cons.IH [OF wf1] Cons.prems(2-5) R1
  obtain pix' where P: "setRowLoop img1 (MinY (Rect img1) + r) p xs = Inr (img1\<lparr>Pix := pix'\<rparr>)"
      "length pix' = length pix1"
      "\<forall>i < length pix'. pix' ! i =
         (if b \<le> i \<and> (i - b) div 4 \<in> set xs then p ! (i - b) else pix1 ! i)"
    unfolding b_def by auto
  have upd: "img1\<lparr>Pix := pix'\<rparr> = img\<lparr>Pix := pix'\<rparr>" by (simp add: img1_def)
  have "pix' ! i = (if b \<le> i \<and> (i - b) div 4 \<in> set (x # xs) then p ! (i - b) else Pix img ! i)"
    if "i < length pix'" for i
  proof -
    have q: "pix1 ! i = (if j \<le> i \<and> i < j + 4 then p ! (4 * x + (i - j)) else Pix img ! i)"
      unfolding pix1_def using j by (rule nth_quad_update)
    have e: "(b \<le> i \<and> (i - b) div 4 = x) \<longleftrightarrow> (j \<le> i \<and> i < j + 4)"
      unfolding j_def by (rule in_quad_iff)
    have "j \<le> i \<Longrightarrow> 4 * x + (i - j) = i - b" by (simp add: j_def)
    then show ?thesis using P(3) that q e by auto
  qed
  then show ?case
    unfolding b_def [symmetric] using step P(1,2) l1 upd by (intro exI [of _ pix']) simp
qed

lemma extractLoop_row:
  assumes "wf_RGBA img" "0 \<le> r" "r < Dy (Rect img)" "\<forall>x\<in>set xs. int x < Dx (Rect img)"
    "int (length buf) = Dx (Rect img) * 4"
  shows "\<exists>out. extractLoop img (MinY (Rect img) + r) xs buf = Inr out \<and>
           length out = length buf \<and>
           (\<forall>i < length out. out ! i =
              (if i div 4 \<in> set xs then Pix img ! (nat (r * Stride img) + i) else buf ! i))"
  using assms(4,5)
proof (induction xs arbitrary: buf)
  case Nil
  then show ?case by simp
next
  case (Cons x xs)
  define b where "b = nat (r * Stride img)"
  have x: "int x < Dx (Rect img)" using Cons.prems(1) by simp
  then have xb: "4 * x + 3 < length buf" using Cons.prems(2) by linarith
  define buf1 where "buf1 = buf[4 * x := Pix img ! (b + 4 * x), 4 * x + 1 := Pix img ! (b + 4 * x + 1),
      4 * x + 2 := Pix img ! (b + 4 * x + 2), 4 * x + 3 := Pix img ! (b + 4 * x + 3)]"
  have l1: "length buf1 = length buf" by (simp add: buf1_def)
  have step: "extractLoop img (MinY (Rect img) + r) (x # xs) buf
      = extractLoop img (MinY (Rect img) + r) xs buf1"
    using xb by (simp add: RGBAAt_row [OF assms(1-3) x] setPixel_def buf1_def b_def mult.commute)
  from Cons.IH [of buf1] Cons.prems l1
  obtain out where O: "extractLoop img (MinY (Rect img) + r) xs buf1 = Inr out"
      "length out = length buf1"
      "\<forall>i < length out. out ! i = (if i div 4 \<in> set xs then Pix img ! (b + i) else buf1 ! i)"
    unfolding b_def by auto
  have "out ! i = (if i div 4 \<in> set (x # xs) then Pix img ! (b + i) else buf ! i)"
    if "i < length out" for i
  proof -
    have q: "buf1 ! i = (if 4 * x \<le> i \<and> i < 4 * x + 4 then Pix img ! (b + 4 * x + (i - 4 * x)) else buf ! i)"
      unfolding buf1_def using xb nth_quad_update [of "4 * x" buf "Pix img" "b + 4 * x" i]
      by (simp add: add.assoc)
    have e: "i div 4 = x \<longleftrightarrow> (4 * x \<le> i \<and> i < 4 * x + 4)"
      using in_quad_iff [of 0 i x] by simp
    show ?thesis using O(3) that q e by auto
  qed
  then show ?case
    unfolding b_def [symmetric] using step O(1,2) l1 by (intro exI [of _ out]) simp
qed

lemma ExtractRowPixels_row:
  assumes "wf_RGBA img" "0 \<le> r" "r < Dy (Rect img)"
  shows "\<exists>out. ExtractRowPixels img r = Inr (Some out) \<and>
           int (length out) = Dx (Rect img) * 4 \<and>
           (\<forall>i < length out. out ! i = Pix img ! (nat (r * Stride img) + i))"
proof -
  define W where "W = nat (Dx (Rect img))"
  have W: "int W = Dx (Rect img)" using assms(1) by (simp add: W_def wf_RGBA_def)
  define buf :: "uint8 list" where "buf = replicate (nat (Dx (Rect img) * 4)) 0"
  have lb: "int (length buf) = Dx (Rect img) * 4" using W by (simp add: buf_def)
  have xs: "\<forall>x\<in>set [0..<W]. int x < Dx (Rect img)" using W by simp
  from extractLoop_row [OF assms xs lb]
  obtain out where O: "extractLoop img (MinY (Rect img) + r) [0..<W] buf = Inr out"
      "length out = length buf"
      "\<forall>i < length out. out ! i =
          (if i div 4 \<in> set [0..<W] then Pix img ! (nat (r * Stride img) + i) else buf ! i)"
    by blast
  have "i div 4 \<in> set [0..<W]" if "i < length out" for i
    using that O(2) lb W by simp
  then have "\<forall>i < length out. out ! i = Pix img ! (nat (r * Stride img) + i)"
    using O(3) by simp
  moreover have "0 \<le> Dx (Rect img)" using assms(1) by (simp add: wf_RGBA_def)
  then have "ExtractRowPixels img r = Inr (Some out)"
    using assms(2,3) O(1) unfolding W_def buf_def by (simp add: ExtractRowPixels_def Let_def)
  ultimately show ?thesis using O(2) lb by auto
qed

lemma SetRowPixels_row:
  assumes "wf_RGBA img" "0 \<le> r" "r < Dy (Rect img)" "int (length p) = Dx (Rect img) * 4"
  shows "\<exists>pix'. SetRowPixels img r p = Inr (img\<lparr>Pix := pix'\<rparr>) \<and>
           length pix' = length (Pix img) \<and>
           (\<forall>i < length pix'. pix' ! i =
              (if nat (r * Stride img) \<le> i \<and> i < nat (r * Stride img) + length p
               then p ! (i - nat (r * Stride img)) else Pix img ! i))"
proof -
  define W where "W = nat (Dx (Rect img))"
  have W: "int W = Dx (Rect img)" using assms(1) by (simp add: W_def wf_RGBA_def)
  have xs: "\<forall>x\<in>set [0..<W]. int x < Dx (Rect img)" using W by simp
  define b where "b = nat (r * Stride img)"
  from setRowLoop_row [OF assms(1-3) xs assms(4)]
  obtain pix' where P: "setRowLoop img (MinY (Rect img) + r) p [0..<W] = Inr (img\<lparr>Pix := pix'\<rparr>)"
      "length pix' = length (Pix img)"
      "\<forall>i < length pix'. pix' ! i =
          (if b \<le> i \<and> (i - b) div 4 \<in> set [0..<W] then p ! (i - b) else Pix img ! i)"
    unfolding b_def by blast
  have lp: "length p = 4 * W" using assms(4) W by linarith
  have "(b \<le> i \<and> (i - b) div 4 \<in> set [0..<W]) \<longleftrightarrow> (b \<le> i \<and> i < b + length p)" for i
    unfolding lp by (simp add: less_mult_imp_div_less) linarith
  then have "\<forall>i < length pix'. pix' ! i =
      (if b \<le> i \<and> i < b + length p then p ! (i - b) else Pix img ! i)"
    using P(3) by simp
  moreover have "SetRowPixels img r p = Inr (img\<lparr>Pix := pix'\<rparr>)"
    using assms(2-4) P(1) by (simp add: SetRowPixels_def Let_def W_def)
  ultimately show ?thesis using P(2) unfolding b_def by blast
qed

text \<open>
  C10. In a valid RGBA image, for a row index \<open>r\<close> in \<open>[0, height)\<close> and a pixel slice \<open>p\<close> of
  length \<open>width * 4\<close>: after \<^verbatim>\<open>SetRowPixels(img, r, p)\<close>, \<^verbatim>\<open>ExtractRowPixels(img, r)\<close>
  returns exactly \<open>p\<close>, and every other row is extracted as before.
\<close>

theorem SetRowPixels_ExtractRowPixels_roundtrip:
  assumes "wf_RGBA img" "0 \<le> r" "r < Dy (Rect img)" "int (length p) = Dx (Rect img) * 4"
  shows "\<exists>img'. SetRowPixels img r p = Inr img' \<and>
           ExtractRowPixels img' r = Inr (Some p) \<and>
           (\<forall>r'. r' \<noteq> r \<longrightarrow> ExtractRowPixels img' r' = ExtractRowPixels img r')"
proof -
  define b where "b = nat (r * Stride img)"
  from SetRowPixels_row [OF assms]
  obtain pix' where P: "SetRowPixels img r p = Inr (img\<lparr>Pix := pix'\<rparr>)"
      "length pix' = length (Pix img)"
      "\<forall>i < length pix'. pix' ! i =
          (if b \<le> i \<and> i < b + length p then p ! (i - b) else Pix img ! i)"
    unfolding b_def by blast
  define img' where "img' = img\<lparr>Pix := pix'\<rparr>"
  have wf': "wf_RGBA img'" unfolding img'_def using assms(1) P(2) by (rule wf_RGBA_Pix_update)
  have R': "Rect img' = Rect img" "Stride img' = Stride img" "Pix img' = pix'"
    by (simp_all add: img'_def)
  note B = row_base_le [OF assms(1-3)]
  have b: "int b = r * Stride img" using assms(2) B(2) by (simp add: b_def)
  have fits: "b + length p \<le> length pix'" using B(1) b assms(4) P(2) by linarith
  have same: "ExtractRowPixels img' r = Inr (Some p)"
  proof -
    from ExtractRowPixels_row [OF wf', of r] assms(2,3) R'
    obtain out where O: "ExtractRowPixels img' r = Inr (Some out)"
        "int (length out) = Dx (Rect img) * 4"
        "\<forall>i < length out. out ! i = pix' ! (b + i)"
      unfolding b_def by auto
    have l: "length out = length p" using O(2) assms(4) by simp
    have "out ! i = p ! i" if "i < length out" for i
      using that O(3) P(3) l fits by simp
    then have "out = p" using l by (simp add: list_eq_iff_nth_eq)
    then show ?thesis using O(1) by simp
  qed
  have other: "ExtractRowPixels img' r' = ExtractRowPixels img r'" if ne: "r' \<noteq> r" for r'
  proof (cases "0 \<le> r' \<and> r' < Dy (Rect img)")
    case False
    then show ?thesis by (auto simp: ExtractRowPixels_def Let_def R')
  next
    case True
    define b' where "b' = nat (r' * Stride img)"
    have b': "int b' = r' * Stride img"
      using True B(2) by (simp add: b'_def)
    from ExtractRowPixels_row [OF wf', of r'] True R'
    obtain o1 where O1: "ExtractRowPixels img' r' = Inr (Some o1)"
        "int (length o1) = Dx (Rect img) * 4"
        "\<forall>i < length o1. o1 ! i = pix' ! (b' + i)"
      unfolding b'_def by auto
    from ExtractRowPixels_row [OF assms(1), of r'] True
    obtain o2 where O2: "ExtractRowPixels img r' = Inr (Some o2)"
        "int (length o2) = Dx (Rect img) * 4"
        "\<forall>i < length o2. o2 ! i = Pix img ! (b' + i)"
      unfolding b'_def by auto
    have l: "length o1 = length o2" "length o1 = length p" using O1(2) O2(2) assms(4) by simp_all
    have S: "4 * Dx (Rect img) \<le> Stride img" using assms(1) by (simp add: wf_RGBA_def)
    have dis: "int b' + Stride img \<le> int b \<or> int b + Stride img \<le> int b'"
      unfolding b b' using rows_disjoint [OF ne B(2)] by blast
    have in': "b' + length p \<le> length pix'"
      using row_base_le(1) [OF assms(1), of r'] True b' assms(4) P(2) by linarith
    have "o1 ! i = o2 ! i" if i: "i < length o1" for i
    proof -
      have "\<not> (b \<le> b' + i \<and> b' + i < b + length p)"
        using dis S i l(2) assms(4) by linarith
      moreover have "b' + i < length pix'" using in' i l(2) by simp
      ultimately have "pix' ! (b' + i) = Pix img ! (b' + i)" using P(3) by auto
      then show ?thesis using O1(3) O2(3) i l(1) by simp
    qed
    then have "o1 = o2" using l(1) by (simp add: list_eq_iff_nth_eq)
    then show ?thesis using O1(1) O2(1) by simp
  qed
  show ?thesis using P(1) same other unfolding img'_def by blast
qed

theorem SetRowPixels_ExtractRowPixels_roundtrip_witness:
  "wf_RGBA \<lparr>Pix = [9, 9, 9, 9, 7, 7, 7, 7], Stride = 4,
            Rect = \<lparr>MinX = 0, MinY = 0, MaxX = 1, MaxY = 2\<rparr>\<rparr> \<and>
   (\<exists>img'. SetRowPixels \<lparr>Pix = [9, 9, 9, 9, 7, 7, 7, 7], Stride = 4,
                Rect = \<lparr>MinX = 0, MinY = 0, MaxX = 1, MaxY = 2\<rparr>\<rparr> 1 [1, 2, 3, 4] = Inr img' \<and>
      ExtractRowPixels img' 1 = Inr (Some [1, 2, 3, 4]) \<and>
      ExtractRowPixels img' 0 = Inr (Some [9, 9, 9, 9]))"
proof -
  let ?img = "\<lparr>Pix = [9, 9, 9, 9, 7, 7, 7, 7 :: uint8], Stride = 4,
            Rect = \<lparr>MinX = 0, MinY = 0, MaxX = 1, MaxY = 2\<rparr>\<rparr>"
  have wf: "wf_RGBA ?img" by (simp add: wf_RGBA_def Dx_def Dy_def)
  have e0: "ExtractRowPixels ?img 0 = Inr (Some [9, 9, 9, 9])"
    by (simp add: ExtractRowPixels_def Dx_def Dy_def RGBAAt_def PointIn_def PixOffset_def
        pixelAtI_def pixelAt_def setPixel_def eval_nat_numeral)
  from SetRowPixels_ExtractRowPixels_roundtrip [OF wf, of 1 "[1, 2, 3, 4]"]
  obtain img' where "SetRowPixels ?img 1 [1, 2, 3, 4] = Inr img'"
      "ExtractRowPixels img' 1 = Inr (Some [1, 2, 3, 4])"
      "\<forall>r'. r' \<noteq> 1 \<longrightarrow> ExtractRowPixels img' r' = ExtractRowPixels ?img r'"
    by (auto simp: Dx_def Dy_def)
  then show ?thesis using wf e0 by (intro conjI exI [of _ img']) simp_all
qed

section \<open>One image job\<close>

lemma collectRows_error:
  assumes "\<exists>rr\<in>set rrs. RowError rr \<noteq> None"
  shows "\<exists>rr e. rr \<in> set rrs \<and> RowError rr = Some e \<and>
           collectRows rrs acc = Inl (RowProcessingFailed e)"
  using assms
proof (induction rrs arbitrary: acc)
  case Nil
  then show ?case by simp
next
  case (Cons r rrs)
  show ?case
  proof (cases "RowError r")
    case (Some e)
    then show ?thesis by (intro exI [of _ r] exI [of _ e]) simp
  next
    case None
    with Cons.prems have "\<exists>rr\<in>set rrs. RowError rr \<noteq> None" by auto
    from Cons.IH [OF this, of "acc[nat (RowIndex r) := Pixels r]"]
    obtain rr e where "rr \<in> set rrs" "RowError rr = Some e"
        "collectRows rrs (acc[nat (RowIndex r) := Pixels r]) = Inl (RowProcessingFailed e)"
      by blast
    then show ?thesis using None by (intro exI [of _ rr] exI [of _ e]) simp
  qed
qed

lemma ProcessSingleImage_row_error:
  assumes "Stat env w (InputPath job) = Inr fsize" "fsize \<le> CfgMaxFileSize cfg"
    "loadImage env w (InputPath job) = Inr (img, format)" "ImageToRGBA img = Inr rgba"
    "fanOut rgba job order = Inr rrs"
    "collectRows rrs (replicate (nat (Dy (Rect rgba))) None) = Inl err"
  shows "ProcessSingleImage env cfg order w job =
     Inr (\<lparr>ResInputPath = InputPath job, ResOutputPath = OutputPath job, ResError = Some err,
           Metadata = \<lparr>Width = Dx (Rect rgba), Height = Dy (Rect rgba), Format = format,
                       OriginalSize = fsize, ProcessedSize = 0,
                       RowsProcessed = Dy (Rect rgba)\<rparr>\<rparr>, w)"
  using assms by (simp add: ProcessSingleImage_def Let_def emptyMetadata_def)

text \<open>
  C5. When the image has been loaded and converted and some row task reports an error,
  \<^verbatim>\<open>ProcessSingleImage\<close> returns a result whose error is a "row processing failed" error
  wrapping the error of one of the row results, and it returns the world as it found it,
  whatever \<^verbatim>\<open>saveImage\<close> would do: the save step is not reached.
\<close>

theorem row_error_fails_image_job:
  assumes "Stat env w (InputPath job) = Inr fsize" "fsize \<le> CfgMaxFileSize cfg"
    "loadImage env w (InputPath job) = Inr (img, format)" "ImageToRGBA img = Inr rgba"
    "fanOut rgba job order = Inr rrs"
    "\<exists>rr\<in>set rrs. RowError rr \<noteq> None"
  shows "\<exists>res rr e. rr \<in> set rrs \<and> RowError rr = Some e \<and>
           ResError res = Some (RowProcessingFailed e) \<and>
           (\<forall>sv. ProcessSingleImage (env\<lparr>saveImage := sv\<rparr>) cfg order w job = Inr (res, w))"
proof -
  from collectRows_error [OF assms(6), of "replicate (nat (Dy (Rect rgba))) None"]
  obtain rr e where rr: "rr \<in> set rrs" "RowError rr = Some e"
      "collectRows rrs (replicate (nat (Dy (Rect rgba))) None) = Inl (RowProcessingFailed e)"
    by blast
  define res where "res = \<lparr>ResInputPath = InputPath job, ResOutputPath = OutputPath job,
      ResError = Some (RowProcessingFailed e),
      Metadata = \<lparr>Width = Dx (Rect rgba), Height = Dy (Rect rgba), Format = format,
                  OriginalSize = fsize, ProcessedSize = 0, RowsProcessed = Dy (Rect rgba)\<rparr>\<rparr>"
  have "ProcessSingleImage (env\<lparr>saveImage := sv\<rparr>) cfg order w job = Inr (res, w)" for sv
    unfolding res_def
    by (rule ProcessSingleImage_row_error [OF _ assms(2) _ assms(4,5) rr(3)])
       (simp_all add: assms(1,3))
  moreover have "ResError res = Some (RowProcessingFailed e)" by (simp add: res_def)
  ultimately show ?thesis using rr(1,2) by blast
qed

lemma NewRGBA_wf:
  assumes "NewRGBA r = Inr rgba"
  shows "wf_RGBA rgba" "Rect rgba = r"
proof -
  from assms have d: "0 \<le> Dx r" "0 \<le> Dy r"
    and rgba: "rgba = \<lparr>Pix = replicate (nat (4 * Dx r * Dy r)) 0, Stride = 4 * Dx r, Rect = r\<rparr>"
    by (auto simp: NewRGBA_def split: if_splits)
  show "Rect rgba = r" by (simp add: rgba)
  have "0 \<le> 4 * Dx r * Dy r" using d by simp
  moreover have "(Dy r - 1) * (4 * Dx r) + 4 * Dx r = 4 * Dx r * Dy r" by (simp add: algebra_simps)
  ultimately show "wf_RGBA rgba" using d by (simp add: wf_RGBA_def rgba)
qed

lemma SetRGBA_wf:
  assumes "SetRGBA p x y c = Inr p'" "wf_RGBA p"
  shows "wf_RGBA p' \<and> Rect p' = Rect p"
proof (cases "PointIn x y (Rect p)")
  case False
  then show ?thesis using assms by (simp add: SetRGBA_def)
next
  case True
  obtain c1 c2 c3 c4 where c: "c = (c1, c2, c3, c4)" by (cases c)
  from assms(1) True obtain pix' where "setPixel (Pix p) (nat (PixOffset p x y)) c = Some pix'"
      "p' = p\<lparr>Pix := pix'\<rparr>"
    by (auto simp: SetRGBA_def Let_def split: if_splits option.splits)
  moreover from this have "length pix' = length (Pix p)"
    by (auto simp: setPixel_def c split: if_splits)
  ultimately show ?thesis using assms(2) by (simp add: wf_RGBA_def)
qed

lemma toRGBALoop_wf:
  assumes "toRGBALoop img pts rgba = Inr rgba'" "wf_RGBA rgba"
  shows "wf_RGBA rgba' \<and> Rect rgba' = Rect rgba"
  using assms
proof (induction pts arbitrary: rgba)
  case Nil
  then show ?case by simp
next
  case (Cons pt pts)
  obtain y x where pt: "pt = (y, x)" by (cases pt)
  from Cons.prems(1) obtain r1 where r1: "SetRGBA rgba x y (At img x y) = Inr r1"
      "toRGBALoop img pts r1 = Inr rgba'"
    by (auto simp: pt split: sum.splits)
  from SetRGBA_wf [OF r1(1) Cons.prems(2)] Cons.IH [OF r1(2)] show ?case by simp
qed

lemma ImageToRGBA_wf:
  assumes "ImageToRGBA img = Inr rgba"
  shows "wf_RGBA rgba" "Rect rgba = Bounds img"
proof -
  from assms obtain r0 where r0: "NewRGBA (Bounds img) = Inr r0"
      "toRGBALoop img [(y, x). y \<leftarrow> [MinY (Bounds img)..MaxY (Bounds img) - 1],
                              x \<leftarrow> [MinX (Bounds img)..MaxX (Bounds img) - 1]] r0 = Inr rgba"
    by (auto simp: ImageToRGBA_def Let_def split: sum.splits)
  from toRGBALoop_wf [OF r0(2) NewRGBA_wf(1) [OF r0(1)]] NewRGBA_wf(2) [OF r0(1)]
  show "wf_RGBA rgba" "Rect rgba = Bounds img" by simp_all
qed

lemma allRows_map:
  assumes "\<forall>x\<in>set xs. f x = Inr (g x)"
  shows "allRows (map f xs) = Inr (map g xs)"
  using assms by (induction xs) simp_all

lemma rowTask_unknown_filter:
  assumes "FilterRegistry (Filter job) = None" "ExtractRowPixels rgba row = Inr (Some px)"
  shows "rowTask rgba job width row =
     Inr \<lparr>ImageID = ID job, RowIndex = row, Pixels = None,
          RowError = Some (UnknownFilter (Filter job))\<rparr>"
  using assms by (simp add: rowTask_def)

lemma fanOut_unknown_filter:
  assumes "FilterRegistry (Filter job) = None" "wf_RGBA rgba"
    "mset order = mset [0..<nat (Dy (Rect rgba))]"
  shows "fanOut rgba job order =
     Inr (map (\<lambda>row. \<lparr>ImageID = ID job, RowIndex = int row, Pixels = None,
                        RowError = Some (UnknownFilter (Filter job))\<rparr>) order)"
proof -
  let ?mk = "\<lambda>row. \<lparr>ImageID = ID job, RowIndex = int row, Pixels = None,
                        RowError = Some (UnknownFilter (Filter job))\<rparr>"
  let ?rows = "[0..<nat (Dy (Rect rgba))]"
  have "rowTask rgba job (Dx (Rect rgba)) (int row) = Inr (?mk row)" if "row \<in> set ?rows" for row
  proof -
    from that have "0 \<le> int row" "int row < Dy (Rect rgba)" by simp_all
    from ExtractRowPixels_row [OF assms(2) this] obtain px where
      "ExtractRowPixels rgba (int row) = Inr (Some px)" by blast
    then show ?thesis by (rule rowTask_unknown_filter [OF assms(1)])
  qed
  then have a: "allRows (map (\<lambda>row. rowTask rgba job (Dx (Rect rgba)) (int row)) ?rows)
      = Inr (map ?mk ?rows)"
    by (intro allRows_map) simp
  have "set order = set ?rows" using assms(3) by (rule mset_eq_setD)
  then have "\<forall>row\<in>set order. map ?mk ?rows ! row = ?mk row" by simp
  then have "map (\<lambda>row. map ?mk ?rows ! row) order = map ?mk order" by (intro map_cong) simp_all
  then show ?thesis unfolding fanOut_def a by simp
qed

lemma FilterRegistry_None_iff:
  "FilterRegistry t = None \<longleftrightarrow> t \<notin> {FilterBlur, FilterBrightness, FilterConstrast, FilterGrayScale}"
  by (auto simp: FilterRegistry_def)

lemma sepia_unregistered: "FilterRegistry ''sepia'' = None"
  by (simp add: FilterRegistry_def FilterBlur_def FilterBrightness_def FilterConstrast_def
      FilterGrayScale_def)

text \<open>A 1 x 1 image with the single pixel (1, 2, 3, 4).\<close>

lemma example_ImageToRGBA:
  "ImageToRGBA \<lparr>Bounds = \<lparr>MinX = 0, MinY = 0, MaxX = 1, MaxY = 1\<rparr>, At = (\<lambda>x y. (1, 2, 3, 4))\<rparr>
     = Inr \<lparr>Pix = [1, 2, 3, 4], Stride = 4, Rect = \<lparr>MinX = 0, MinY = 0, MaxX = 1, MaxY = 1\<rparr>\<rparr>"
  by (simp add: ImageToRGBA_def NewRGBA_def Dx_def Dy_def SetRGBA_def PointIn_def PixOffset_def
      setPixel_def eval_nat_numeral)

lemma example_ExtractRowPixels:
  "ExtractRowPixels \<lparr>Pix = [1, 2, 3, 4], Stride = 4,
       Rect = \<lparr>MinX = 0, MinY = 0, MaxX = 1, MaxY = 1\<rparr>\<rparr> 0 = Inr (Some [1, 2, 3, 4])"
  by (simp add: ExtractRowPixels_def Dx_def Dy_def RGBAAt_def PointIn_def PixOffset_def
      pixelAtI_def pixelAt_def setPixel_def eval_nat_numeral)

lemma example_fanOut:
  "fanOut \<lparr>Pix = [1, 2, 3, 4], Stride = 4, Rect = \<lparr>MinX = 0, MinY = 0, MaxX = 1, MaxY = 1\<rparr>\<rparr>
     \<lparr>ID = ''job_0'', InputPath = ''a.png'', OutputPath = ''a_sepia.png'', Filter = ''sepia'',
      Params = \<lparr>BlurRadius = 2, Brightness = 6 / 5, Contrast = 11 / 10, Quality = 95\<rparr>\<rparr> [0]
   = Inr [\<lparr>ImageID = ''job_0'', RowIndex = 0, Pixels = None,
           RowError = Some (UnknownFilter ''sepia'')\<rparr>]"
  by (simp add: fanOut_def Dx_def Dy_def rowTask_def example_ExtractRowPixels sepia_unregistered)

theorem row_error_fails_image_job_witness:
  "\<exists>res. ResError res = Some (RowProcessingFailed (UnknownFilter ''sepia'')) \<and>
     ProcessSingleImage
       \<lparr>Stat = (\<lambda>w p. Inr 100),
        loadImage = (\<lambda>w p. Inr (\<lparr>Bounds = \<lparr>MinX = 0, MinY = 0, MaxX = 1, MaxY = 1\<rparr>,
                                   At = (\<lambda>x y. (1, 2, 3, 4))\<rparr>, ''png'')),
        saveImage = (\<lambda>w img p f q. (None, p # w))\<rparr>
       \<lparr>CfgOutputDir = ''out'', CfgFilter = ''sepia'', CfgWorkers = 1, CfgQuality = 95,
        CfgBlurRadius = 2, CfgBrightness = 6 / 5, CfgContrast = 11 / 10,
        CfgMaxFileSize = 1000, CfgBufferSize = 1\<rparr>
       [0] []
       \<lparr>ID = ''job_0'', InputPath = ''a.png'', OutputPath = ''a_sepia.png'', Filter = ''sepia'',
        Params = \<lparr>BlurRadius = 2, Brightness = 6 / 5, Contrast = 11 / 10, Quality = 95\<rparr>\<rparr>
     = Inr (res, [])"
proof -
  let ?img = "\<lparr>Bounds = \<lparr>MinX = 0, MinY = 0, MaxX = 1, MaxY = 1\<rparr>, At = (\<lambda>x y. (1, 2, 3, 4))\<rparr>"
  let ?env = "\<lparr>Stat = (\<lambda>w p. Inr 100), loadImage = (\<lambda>w p. Inr (?img, ''png'')),
        saveImage = (\<lambda>w img p f q. (None, p # w))\<rparr> :: string list Env"
  let ?cfg = "\<lparr>CfgOutputDir = ''out'', CfgFilter = ''sepia'', CfgWorkers = 1, CfgQuality = 95,
        CfgBlurRadius = 2, CfgBrightness = 6 / 5, CfgContrast = 11 / 10,
        CfgMaxFileSize = 1000, CfgBufferSize = 1\<rparr>"
  let ?job = "\<lparr>ID = ''job_0'', InputPath = ''a.png'', OutputPath = ''a_sepia.png'',
        Filter = ''sepia'',
        Params = \<lparr>BlurRadius = 2, Brightness = 6 / 5, Contrast = 11 / 10, Quality = 95\<rparr>\<rparr>"
  let ?rr = "\<lparr>ImageID = ''job_0'', RowIndex = 0, Pixels = None,
           RowError = Some (UnknownFilter ''sepia'')\<rparr>"
  have h1: "Stat ?env [] (InputPath ?job) = Inr 100" by simp
  have h2: "(100::int) \<le> CfgMaxFileSize ?cfg" by simp
  have h3: "loadImage ?env [] (InputPath ?job) = Inr (?img, ''png'')" by simp
  have h6: "\<exists>rr\<in>set [?rr]. RowError rr \<noteq> None" by simp
  from row_error_fails_image_job [OF h1 h2 h3 example_ImageToRGBA example_fanOut h6]
  obtain res rr e where r: "rr \<in> set [?rr]" "RowError rr = Some e"
      "ResError res = Some (RowProcessingFailed e)"
      "\<forall>sv. ProcessSingleImage (?env\<lparr>saveImage := sv\<rparr>) ?cfg [0] [] ?job = Inr (res, [])"
    by blast
  from r(1,2) have "e = UnknownFilter ''sepia''" by simp
  moreover from r(4) [rule_format, of "\<lambda>w img p f q. (None, p # w)"]
  have "ProcessSingleImage ?env ?cfg [0] [] ?job = Inr (res, [])" by simp
  ultimately show ?thesis using r(3) by blast
qed

text \<open>
  C4 (as amended). When the job's filter identifier is not one of the four registered
  filters: the pool's row worker produces a \<^verbatim>\<open>RowResult\<close> carrying the "unknown filter" error
  together with the job's pixel buffer unchanged; the row task started by
  \<^verbatim>\<open>ProcessSingleImage\<close> produces a \<^verbatim>\<open>RowResult\<close> carrying the "unknown filter" error and no
  pixel buffer; and the job of an image of at least one row then fails with a
  "row processing failed" error wrapping it, the world is returned as it was found and
  \<^verbatim>\<open>saveImage\<close> is not reached, so no output file is written for that image.
\<close>

theorem unknown_filter_fails_image_job:
  assumes "Filter job \<notin> {FilterBlur, FilterBrightness, FilterConstrast, FilterGrayScale}"
  shows
   "(JobFilter rjob = Filter job \<longrightarrow>
       rowWorkerResult rjob =
         Inr \<lparr>ImageID = JobImageID rjob, RowIndex = JobRowIndex rjob, Pixels = JobPixels rjob,
              RowError = Some (UnknownFilter (Filter job))\<rparr>) \<and>
    (ExtractRowPixels rgba row = Inr (Some px) \<longrightarrow>
       rowTask rgba job width row =
         Inr \<lparr>ImageID = ID job, RowIndex = row, Pixels = None,
              RowError = Some (UnknownFilter (Filter job))\<rparr>) \<and>
    (Stat env w (InputPath job) = Inr fsize \<and> fsize \<le> CfgMaxFileSize cfg \<and>
     loadImage env w (InputPath job) = Inr (img, format) \<and> ImageToRGBA img = Inr rgba \<and>
     0 < Dy (Rect rgba) \<and> mset order = mset [0..<nat (Dy (Rect rgba))] \<longrightarrow>
       (\<exists>res. ResError res = Some (RowProcessingFailed (UnknownFilter (Filter job))) \<and>
          (\<forall>sv. ProcessSingleImage (env\<lparr>saveImage := sv\<rparr>) cfg order w job = Inr (res, w))))"
proof (intro conjI impI)
  have none: "FilterRegistry (Filter job) = None"
    using assms FilterRegistry_None_iff [of "Filter job"] by blast
  show "rowWorkerResult rjob =
         Inr \<lparr>ImageID = JobImageID rjob, RowIndex = JobRowIndex rjob, Pixels = JobPixels rjob,
              RowError = Some (UnknownFilter (Filter job))\<rparr>"
    if "JobFilter rjob = Filter job"
    using that none by (simp add: rowWorkerResult_def)
  show "rowTask rgba job width row =
         Inr \<lparr>ImageID = ID job, RowIndex = row, Pixels = None,
              RowError = Some (UnknownFilter (Filter job))\<rparr>"
    if "ExtractRowPixels rgba row = Inr (Some px)"
    using none that by (rule rowTask_unknown_filter)
  assume a: "Stat env w (InputPath job) = Inr fsize \<and> fsize \<le> CfgMaxFileSize cfg \<and>
     loadImage env w (InputPath job) = Inr (img, format) \<and> ImageToRGBA img = Inr rgba \<and>
     0 < Dy (Rect rgba) \<and> mset order = mset [0..<nat (Dy (Rect rgba))]"
  let ?mk = "\<lambda>row. \<lparr>ImageID = ID job, RowIndex = int row, Pixels = None,
                        RowError = Some (UnknownFilter (Filter job))\<rparr>"
  have wf: "wf_RGBA rgba" using a ImageToRGBA_wf(1) by blast
  have fo: "fanOut rgba job order = Inr (map ?mk order)"
    using none wf a by (intro fanOut_unknown_filter) simp_all
  have "length order = length [0..<nat (Dy (Rect rgba))]"
    using a by (metis size_mset)
  then have "order \<noteq> []" using a by auto
  then obtain r0 rest where o: "order = r0 # rest" by (cases order) auto
  have cr: "collectRows (map ?mk order) (replicate (nat (Dy (Rect rgba))) None)
      = Inl (RowProcessingFailed (UnknownFilter (Filter job)))"
    by (simp add: o)
  define res where "res = \<lparr>ResInputPath = InputPath job, ResOutputPath = OutputPath job,
      ResError = Some (RowProcessingFailed (UnknownFilter (Filter job))),
      Metadata = \<lparr>Width = Dx (Rect rgba), Height = Dy (Rect rgba), Format = format,
                  OriginalSize = fsize, ProcessedSize = 0, RowsProcessed = Dy (Rect rgba)\<rparr>\<rparr>"
  have a1: "Stat (env\<lparr>saveImage := sv\<rparr>) w (InputPath job) = Inr fsize"
    and a3: "loadImage (env\<lparr>saveImage := sv\<rparr>) w (InputPath job) = Inr (img, format)" for sv
    using a by simp_all
  have a2: "fsize \<le> CfgMaxFileSize cfg" and a4: "ImageToRGBA img = Inr rgba"
    using a by blast+
  have "ProcessSingleImage (env\<lparr>saveImage := sv\<rparr>) cfg order w job = Inr (res, w)" for sv
    unfolding res_def
    by (rule ProcessSingleImage_row_error [OF a1 a2 a3 a4 fo cr])
  moreover have "ResError res = Some (RowProcessingFailed (UnknownFilter (Filter job)))"
    by (simp add: res_def)
  ultimately show "\<exists>res. ResError res = Some (RowProcessingFailed (UnknownFilter (Filter job))) \<and>
          (\<forall>sv. ProcessSingleImage (env\<lparr>saveImage := sv\<rparr>) cfg order w job = Inr (res, w))"
    by blast
qed

theorem unknown_filter_fails_image_job_witness:
  "''sepia'' \<notin> {FilterBlur, FilterBrightness, FilterConstrast, FilterGrayScale} \<and>
   rowWorkerResult
     \<lparr>JobImageID = ''job_0'', JobRowIndex = 0, JobPixels = Some [1, 2, 3, 4], JobWidth = 1,
      JobBounds = \<lparr>MinX = 0, MinY = 0, MaxX = 1, MaxY = 1\<rparr>, JobFilter = ''sepia'',
      JobParams = \<lparr>BlurRadius = 2, Brightness = 6 / 5, Contrast = 11 / 10, Quality = 95\<rparr>\<rparr>
     = Inr \<lparr>ImageID = ''job_0'', RowIndex = 0, Pixels = Some [1, 2, 3, 4],
            RowError = Some (UnknownFilter ''sepia'')\<rparr> \<and>
   (\<exists>res. ResError res = Some (RowProcessingFailed (UnknownFilter ''sepia'')) \<and>
     ProcessSingleImage
       \<lparr>Stat = (\<lambda>w p. Inr 100),
        loadImage = (\<lambda>w p. Inr (\<lparr>Bounds = \<lparr>MinX = 0, MinY = 0, MaxX = 1, MaxY = 1\<rparr>,
                                   At = (\<lambda>x y. (1, 2, 3, 4))\<rparr>, ''png'')),
        saveImage = (\<lambda>w img p f q. (None, p # w))\<rparr>
       \<lparr>CfgOutputDir = ''out'', CfgFilter = ''sepia'', CfgWorkers = 1, CfgQuality = 95,
        CfgBlurRadius = 2, CfgBrightness = 6 / 5, CfgContrast = 11 / 10,
        CfgMaxFileSize = 1000, CfgBufferSize = 1\<rparr>
       [0] []
       \<lparr>ID = ''job_0'', InputPath = ''a.png'', OutputPath = ''a_sepia.png'', Filter = ''sepia'',
        Params = \<lparr>BlurRadius = 2, Brightness = 6 / 5, Contrast = 11 / 10, Quality = 95\<rparr>\<rparr>
     = Inr (res, []))"
proof -
  let ?img = "\<lparr>Bounds = \<lparr>MinX = 0, MinY = 0, MaxX = 1, MaxY = 1\<rparr>, At = (\<lambda>x y. (1, 2, 3, 4))\<rparr>"
  let ?rgba = "\<lparr>Pix = [1, 2, 3, 4], Stride = 4, Rect = \<lparr>MinX = 0, MinY = 0, MaxX = 1, MaxY = 1\<rparr>\<rparr>"
  let ?env = "\<lparr>Stat = (\<lambda>w p. Inr 100), loadImage = (\<lambda>w p. Inr (?img, ''png'')),
        saveImage = (\<lambda>w img p f q. (None, p # w))\<rparr> :: string list Env"
  let ?cfg = "\<lparr>CfgOutputDir = ''out'', CfgFilter = ''sepia'', CfgWorkers = 1, CfgQuality = 95,
        CfgBlurRadius = 2, CfgBrightness = 6 / 5, CfgContrast = 11 / 10,
        CfgMaxFileSize = 1000, CfgBufferSize = 1\<rparr>"
  let ?job = "\<lparr>ID = ''job_0'', InputPath = ''a.png'', OutputPath = ''a_sepia.png'',
        Filter = ''sepia'',
        Params = \<lparr>BlurRadius = 2, Brightness = 6 / 5, Contrast = 11 / 10, Quality = 95\<rparr>\<rparr>"
  let ?rjob = "\<lparr>JobImageID = ''job_0'', JobRowIndex = 0, JobPixels = Some [1, 2, 3, 4], JobWidth = 1,
      JobBounds = \<lparr>MinX = 0, MinY = 0, MaxX = 1, MaxY = 1\<rparr>, JobFilter = ''sepia'',
      JobParams = \<lparr>BlurRadius = 2, Brightness = 6 / 5, Contrast = 11 / 10, Quality = 95\<rparr>\<rparr>"
  have h: "Filter ?job \<notin> {FilterBlur, FilterBrightness, FilterConstrast, FilterGrayScale}"
    by (simp add: FilterBlur_def FilterBrightness_def FilterConstrast_def FilterGrayScale_def)
  note T = unknown_filter_fails_image_job [OF h, of ?rjob ?rgba 0 "[1, 2, 3, 4]" 1 ?env "[]" 100 ?cfg
      ?img "''png''" "[0]"]
  have a: "rowWorkerResult ?rjob = Inr \<lparr>ImageID = ''job_0'', RowIndex = 0, Pixels = Some [1, 2, 3, 4],
            RowError = Some (UnknownFilter ''sepia'')\<rparr>"
    using T [THEN conjunct1] by simp
  have pre: "Stat ?env [] (InputPath ?job) = Inr 100 \<and> 100 \<le> CfgMaxFileSize ?cfg \<and>
     loadImage ?env [] (InputPath ?job) = Inr (?img, ''png'') \<and> ImageToRGBA ?img = Inr ?rgba \<and>
     0 < Dy (Rect ?rgba) \<and> mset [0] = mset [0..<nat (Dy (Rect ?rgba))]"
    by (simp add: example_ImageToRGBA Dy_def)
  from T [THEN conjunct2, THEN conjunct2, rule_format, OF pre]
  obtain res where r: "ResError res = Some (RowProcessingFailed (UnknownFilter (Filter ?job)))"
      "\<forall>sv. ProcessSingleImage (?env\<lparr>saveImage := sv\<rparr>) ?cfg [0] [] ?job = Inr (res, [])"
    by blast
  from r(2) [rule_format, of "\<lambda>w img p f q. (None, p # w)"]
  have "ProcessSingleImage ?env ?cfg [0] [] ?job = Inr (res, [])" by simp
  then show ?thesis using h a r(1) by auto
qed

theorem unknown_filter_row_task_counterexample:
  "rowTask \<lparr>Pix = [1, 2, 3, 4], Stride = 4, Rect = \<lparr>MinX = 0, MinY = 0, MaxX = 1, MaxY = 1\<rparr>\<rparr>
     \<lparr>ID = ''job_0'', InputPath = ''a.png'', OutputPath = ''a_sepia.png'', Filter = ''sepia'',
      Params = \<lparr>BlurRadius = 2, Brightness = 6 / 5, Contrast = 11 / 10, Quality = 95\<rparr>\<rparr> 1 0
   = Inr \<lparr>ImageID = ''job_0'', RowIndex = 0, Pixels = None,
          RowError = Some (UnknownFilter ''sepia'')\<rparr> \<and>
   ExtractRowPixels \<lparr>Pix = [1, 2, 3, 4], Stride = 4,
       Rect = \<lparr>MinX = 0, MinY = 0, MaxX = 1, MaxY = 1\<rparr>\<rparr> 0 = Inr (Some [1, 2, 3, 4])"
  by (simp add: rowTask_def example_ExtractRowPixels sepia_unregistered)

section \<open>Stopping the pool\<close>

lemma closeChan_cases:
  "closeChan c = Inl CloseOfClosedChannel \<or> (\<exists>c'. closeChan c = Inr c' \<and> chClosed c')"
  by (simp add: closeChan_def)

lemma Stop_open:
  assumes "channelsOpen wp"
  shows "Stop wp = Inr (wp\<lparr>quit := (quit wp)\<lparr>chClosed := True\<rparr>,
                         jobQueue := (jobQueue wp)\<lparr>chClosed := True\<rparr>,
                         wg := 0,
                         resultQueue := (resultQueue wp)\<lparr>chClosed := True\<rparr>\<rparr>)"
  using assms by (simp add: Stop_def bindPanic_def closeChan_def channelsOpen_def wgWait_def Let_def)

text \<open>
  C9. The \<^verbatim>\<open>Stop\<close> of the second copy of the pool never returns: whatever the state of the
  pool, it panics with "close of closed channel", at the latest when it closes the result
  channel for the second time.
\<close>

theorem Stop2_panics: "Stop2 wp = Inl CloseOfClosedChannel"
proof -
  have "bindPanic (closeChan rq) f = Inl CloseOfClosedChannel" if "chClosed rq"
    for rq :: "ProcessingResult chan" and f :: "ProcessingResult chan \<Rightarrow> panic + WorkerPool"
    using that by (simp add: bindPanic_def closeChan_def)
  then show ?thesis
    by (auto simp: Stop2_def bindPanic_def closeChan_def Let_def split: sum.splits)
qed

section \<open>A batch of images\<close>

lemma ProcessSingleImage_paths:
  assumes "ProcessSingleImage env cfg order w job = Inr (result, w')"
  shows "ResInputPath result = InputPath job"
  using assms
  by (auto simp: ProcessSingleImage_def Let_def split: sum.splits if_splits prod.splits option.splits)

lemma New_pool:
  assumes "New cfg = Inr p"
  shows "config p = cfg"
    and "workerCount (workerPool p) = CfgWorkers cfg"
    and "jobQueue (workerPool p) = makeChan (nat (CfgBufferSize cfg))"
    and "resultQueue (workerPool p) = makeChan (nat (CfgBufferSize cfg))"
    and "quit (workerPool p) = makeChan 0"
  using assms by (auto simp: New_def NewWorkerPool_def split: if_splits)

lemma held_update:
  assumes "k < length ws"
  shows "sum_mset (image_mset held (mset (ws[k := x]))) + held (ws ! k)
           = sum_mset (image_mset held (mset ws)) + held x"
proof -
  have m: "mset ws = add_mset (ws ! k) (mset ws - {#ws ! k#})"
    using assms by simp
  have "mset (ws[k := x]) = add_mset x (mset ws - {#ws ! k#})"
    using assms by (rule mset_update)
  then have "sum_mset (image_mset held (mset (ws[k := x]))) + held (ws ! k)
      = held x + sum_mset (image_mset held (mset ws - {#ws ! k#})) + held (ws ! k)"
    by simp
  also have "\<dots> = sum_mset (image_mset held (add_mset (ws ! k) (mset ws - {#ws ! k#}))) + held x"
    by (simp add: ac_simps)
  finally show ?thesis using m by simp
qed

lemma batchInv_started:
  assumes "New cfg = Inr p"
  shows "batchInv imagePaths (started p imagePaths w)"
  using New_pool(3-5) [OF assms]
  by (simp add: batchInv_def started_def afterSubmit_def inFlight_def makeChan_def
      channelsOpen_def held_def)

lemma returnWith_open:
  assumes "channelsOpen (pool s)"
  shows "mainPc (returnWith s results err) = Returned results err"
    and "cancelled (returnWith s results err) = cancelled s"
  using Stop_open [OF assms] by (simp_all add: returnWith_def)

lemma inv_Cancel:
  assumes "step env lib cfg imagePaths Cancel s = Some s'" "batchInv imagePaths s"
  shows "batchInv imagePaths s'"
  using assms by (auto simp: batchInv_def inFlight_def split: mainState.splits)

text \<open>The main goroutine has handed over job \<open>i\<close>, to the queue or to a worker.\<close>

lemma batchInv_submitted:
  assumes I: "batchInv imagePaths s" and i: "mainPc s = Submitting i"
    and pc: "mainPc s' = afterSubmit imagePaths (i + 1)"
    and o: "channelsOpen (pool s) \<Longrightarrow> channelsOpen (pool s')"
    and f: "inFlight s' = add_mset (imagePaths ! i) (inFlight s)"
  shows "batchInv imagePaths s'"
proof -
  from I i have J: "i < length imagePaths" "channelsOpen (pool s)"
      "inFlight s \<subseteq># mset (take i imagePaths)"
    by (simp_all add: batchInv_def)
  have t: "mset (take (i + 1) imagePaths) = add_mset (imagePaths ! i) (mset (take i imagePaths))"
    using J(1) by (simp add: take_Suc_conv_app_nth)
  have sub: "inFlight s' \<subseteq># mset (take (i + 1) imagePaths)"
    unfolding f t using J(3) by simp
  show ?thesis
  proof (cases "i + 1 < length imagePaths")
    case True
    then show ?thesis using o [OF J(2)] sub pc by (simp add: batchInv_def afterSubmit_def)
  next
    case False
    then have "take (i + 1) imagePaths = imagePaths" by simp
    then have "inFlight s' \<subseteq># mset imagePaths" using sub by simp
    moreover have "mainPc s' = Collecting []" using False pc by (simp add: afterSubmit_def)
    ultimately show ?thesis using o [OF J(2)] by (simp add: batchInv_def)
  qed
qed

lemma inv_Submit:
  assumes "step env lib cfg imagePaths Submit s = Some s'" "batchInv imagePaths s"
  shows "batchInv imagePaths s'"
proof -
  from assms(1) obtain i where i: "mainPc s = Submitting i" "i < length imagePaths"
    and s': "s' = s\<lparr>pool := (pool s)\<lparr>jobQueue := (jobQueue (pool s))
                \<lparr>chBuf := chBuf (jobQueue (pool s)) @ [makeJob lib cfg i (imagePaths ! i)]\<rparr>\<rparr>,
              mainPc := afterSubmit imagePaths (i + 1)\<rparr>"
    by (auto simp: Let_def split: mainState.splits if_splits)
  show ?thesis
    by (rule batchInv_submitted [OF assms(2) i(1)])
       (simp_all add: s' inFlight_def makeJob_def channelsOpen_def)
qed

lemma inv_Receive:
  assumes "step env lib cfg imagePaths Receive s = Some s'" "batchInv imagePaths s"
  shows "batchInv imagePaths s'"
  using assms
  by (auto simp: batchInv_def inFlight_def Let_def channelsOpen_def
      split: mainState.splits list.splits if_splits)

lemma inv_ObserveDone:
  assumes "step env lib cfg imagePaths ObserveDone s = Some s'" "batchInv imagePaths s"
  shows "batchInv imagePaths s'"
proof -
  from assms(1) obtain rs where rs: "mainPc s = Collecting rs" "length rs < length imagePaths"
      "cancelled s" and s': "s' = returnWith s rs (Some ContextError)"
    by (auto split: mainState.splits if_splits)
  from assms(2) rs have I: "channelsOpen (pool s)"
      "inFlight s + mset (map ResInputPath rs) \<subseteq># mset imagePaths"
    by (simp_all add: batchInv_def)
  have "mset (map ResInputPath rs) \<subseteq># mset imagePaths"
    using I(2) by (meson subset_mset.dual_order.trans mset_subset_eq_add_right)
  then show ?thesis
    using returnWith_open [OF I(1), of rs "Some ContextError"] rs
    by (simp add: batchInv_def s')
qed

lemma inv_Finish:
  assumes "step env lib cfg imagePaths Finish s = Some s'" "batchInv imagePaths s"
  shows "batchInv imagePaths s'"
proof -
  from assms(1) obtain rs where rs: "mainPc s = Collecting rs" "\<not> length rs < length imagePaths"
    and s': "s' = returnWith s rs None"
    by (auto split: mainState.splits if_splits)
  from assms(2) rs have I: "channelsOpen (pool s)"
      "inFlight s + mset (map ResInputPath rs) \<subseteq># mset imagePaths"
    by (simp_all add: batchInv_def)
  have "mset (map ResInputPath rs) \<subseteq># mset imagePaths"
    using I(2) by (meson subset_mset.dual_order.trans mset_subset_eq_add_right)
  then show ?thesis
    using returnWith_open [OF I(1), of rs None] rs
    by (simp add: batchInv_def s')
qed

lemma batchInv_inFlight_mono:
  assumes "batchInv imagePaths s" "mainPc s' = mainPc s" "inFlight s' \<subseteq># inFlight s"
    "channelsOpen (pool s) \<Longrightarrow> channelsOpen (pool s')"
    "\<And>rs err. mainPc s \<noteq> Returned rs err"
  shows "batchInv imagePaths s'"
proof (cases "mainPc s")
  case (Submitting i)
  then show ?thesis using assms
    by (auto simp: batchInv_def intro: subset_mset.order_trans)
next
  case (Collecting rs)
  have a: "inFlight s' + mset (map ResInputPath rs) \<subseteq># inFlight s + mset (map ResInputPath rs)"
    using assms(3) by simp
  have b: "inFlight s + mset (map ResInputPath rs) \<subseteq># mset imagePaths"
    "channelsOpen (pool s)"
    using assms(1) Collecting by (simp_all add: batchInv_def)
  have "inFlight s' + mset (map ResInputPath rs) \<subseteq># mset imagePaths"
    using a b(1) by (rule subset_mset.order_trans)
  then show ?thesis using assms(2,4) b(2) Collecting by (simp add: batchInv_def)
next
  case (Returned rs err)
  then show ?thesis using assms(5) by simp
next
  case (Crashed e)
  then show ?thesis using assms(2) by (simp add: batchInv_def)
qed

text \<open>
  A worker that runs a job either crashes the program or holds a result for the job's
  input path.
\<close>

lemma workerRuns_cases:
  assumes k: "k < length (workers s)" "workers s ! k = Idle"
  shows "(\<exists>e. workerRuns env cfg order k job s = s\<lparr>mainPc := Crashed e\<rparr>) \<or>
         (\<exists>result w'. workerRuns env cfg order k job s
              = s\<lparr>workers := (workers s)[k := Holding result], world := w'\<rparr> \<and>
            ResInputPath result = InputPath job \<and>
            inFlight (workerRuns env cfg order k job s) = add_mset (InputPath job) (inFlight s))"
proof (cases "ProcessSingleImage env cfg order (world s) job")
  case (Inl e)
  then have "workerRuns env cfg order k job s = s\<lparr>mainPc := Crashed e\<rparr>"
    by (simp add: workerRuns_def)
  then show ?thesis by blast
next
  case (Inr rw)
  obtain result w' where rw: "rw = (result, w')" by (cases rw)
  have p: "ResInputPath result = InputPath job"
    using Inr rw by (auto dest: ProcessSingleImage_paths)
  have e: "workerRuns env cfg order k job s
      = s\<lparr>workers := (workers s)[k := Holding result], world := w'\<rparr>"
    using Inr rw by (simp add: workerRuns_def)
  have "sum_mset (image_mset held (mset ((workers s)[k := Holding result])))
      = sum_mset (image_mset held (mset (workers s))) + {#InputPath job#}"
    using held_update [OF k(1), of "Holding result"] k(2) p by (simp add: held_def)
  then have "inFlight (workerRuns env cfg order k job s) = add_mset (InputPath job) (inFlight s)"
    by (simp add: e inFlight_def)
  then show ?thesis using e p by blast
qed

lemma step_WorkerTake_cases:
  assumes "step env lib cfg imagePaths (WorkerTake k order) s = Some s'"
  obtains (queue) job rest where "chBuf (jobQueue (pool s)) = job # rest"
      "k < length (workers s)" "workers s ! k = Idle"
      "s' = workerRuns env cfg order k job
              (s\<lparr>pool := (pool s)\<lparr>jobQueue := (jobQueue (pool s))\<lparr>chBuf := rest\<rparr>\<rparr>\<rparr>)"
      "\<And>rs err. mainPc s \<noteq> Returned rs err" "\<And>e. mainPc s \<noteq> Crashed e"
    | (handover) i where "chBuf (jobQueue (pool s)) = []" "chCap (jobQueue (pool s)) = 0"
      "mainPc s = Submitting i" "i < length imagePaths"
      "k < length (workers s)" "workers s ! k = Idle"
      "s' = workerRuns env cfg order k (makeJob lib cfg i (imagePaths ! i))
              (s\<lparr>mainPc := afterSubmit imagePaths (i + 1)\<rparr>)"
  using assms
  by (auto simp: Let_def split: mainState.splits list.splits if_splits)

lemma inv_WorkerTake:
  assumes "step env lib cfg imagePaths (WorkerTake k order) s = Some s'" "batchInv imagePaths s"
  shows "batchInv imagePaths s'"
  using assms(1)
proof (cases rule: step_WorkerTake_cases)
  case (queue job rest)
  let ?s0 = "s\<lparr>pool := (pool s)\<lparr>jobQueue := (jobQueue (pool s))\<lparr>chBuf := rest\<rparr>\<rparr>\<rparr>"
  have k: "k < length (workers ?s0)" "workers ?s0 ! k = Idle" using queue(2,3) by simp_all
  have f0: "add_mset (InputPath job) (inFlight ?s0) = inFlight s"
    by (simp add: inFlight_def queue(1))
  from workerRuns_cases [OF k, of env cfg order job]
  show ?thesis
  proof (elim disjE exE conjE)
    fix e assume "workerRuns env cfg order k job ?s0 = ?s0\<lparr>mainPc := Crashed e\<rparr>"
    then show ?thesis by (simp add: queue(4) batchInv_def)
  next
    fix result w'
    assume e: "workerRuns env cfg order k job ?s0
        = ?s0\<lparr>workers := (workers ?s0)[k := Holding result], world := w'\<rparr>"
      and f: "inFlight (workerRuns env cfg order k job ?s0) = add_mset (InputPath job) (inFlight ?s0)"
    have s'e: "s' = ?s0\<lparr>workers := (workers ?s0)[k := Holding result], world := w'\<rparr>"
      using queue(4) e by simp
    have "inFlight s' = inFlight s" using f f0 by (simp add: queue(4))
    then show ?thesis
      by (intro batchInv_inFlight_mono [OF assms(2)] queue(5))
         (simp_all add: s'e channelsOpen_def)
  qed
next
  case (handover i)
  let ?job = "makeJob lib cfg i (imagePaths ! i)"
  let ?s0 = "s\<lparr>mainPc := afterSubmit imagePaths (i + 1)\<rparr>"
  have k: "k < length (workers ?s0)" "workers ?s0 ! k = Idle" using handover(5,6) by simp_all
  have f0: "inFlight ?s0 = inFlight s" by (simp add: inFlight_def)
  from workerRuns_cases [OF k, of env cfg order ?job]
  show ?thesis
  proof (elim disjE exE conjE)
    fix e assume "workerRuns env cfg order k ?job ?s0 = ?s0\<lparr>mainPc := Crashed e\<rparr>"
    then show ?thesis by (simp add: handover(7) batchInv_def)
  next
    fix result w'
    assume e: "workerRuns env cfg order k ?job ?s0
        = ?s0\<lparr>workers := (workers ?s0)[k := Holding result], world := w'\<rparr>"
      and f: "inFlight (workerRuns env cfg order k ?job ?s0) = add_mset (InputPath ?job) (inFlight ?s0)"
    have s'e: "s' = ?s0\<lparr>workers := (workers ?s0)[k := Holding result], world := w'\<rparr>"
      using handover(7) e by simp
    have "inFlight s' = add_mset (imagePaths ! i) (inFlight s)"
      using f f0 by (simp add: handover(7) makeJob_def)
    then show ?thesis
      by (intro batchInv_submitted [OF assms(2) handover(3)])
         (simp_all add: s'e channelsOpen_def)
  qed
qed

lemma step_WorkerSend_cases:
  assumes "step env lib cfg imagePaths (WorkerSend k) s = Some s'"
  obtains (queue) result where "k < length (workers s)" "workers s ! k = Holding result"
      "length (chBuf (resultQueue (pool s))) < chCap (resultQueue (pool s))"
      "s' = s\<lparr>pool := (pool s)\<lparr>resultQueue := (resultQueue (pool s))
                  \<lparr>chBuf := chBuf (resultQueue (pool s)) @ [result]\<rparr>\<rparr>,
                workers := (workers s)[k := Idle]\<rparr>"
      "\<And>rs err. mainPc s \<noteq> Returned rs err" "\<And>e. mainPc s \<noteq> Crashed e"
    | (handover) result rs where "k < length (workers s)" "workers s ! k = Holding result"
      "chCap (resultQueue (pool s)) = 0" "mainPc s = Collecting rs" "length rs < length imagePaths"
      "s' = s\<lparr>mainPc := Collecting (rs @ [result]), workers := (workers s)[k := Idle]\<rparr>"
  using assms
  by (auto simp: Let_def split: mainState.splits workerState.splits if_splits)

lemma inv_WorkerSend:
  assumes "step env lib cfg imagePaths (WorkerSend k) s = Some s'" "batchInv imagePaths s"
  shows "batchInv imagePaths s'"
  using assms(1)
proof (cases rule: step_WorkerSend_cases)
  case (queue result)
  have "sum_mset (image_mset held (mset ((workers s)[k := Idle]))) + {#ResInputPath result#}
      = sum_mset (image_mset held (mset (workers s)))"
    using held_update [OF queue(1), of Idle] queue(2) by (simp add: held_def)
  then have "inFlight s' = inFlight s"
    by (simp add: queue(4) inFlight_def ac_simps)
  then show ?thesis
    by (intro batchInv_inFlight_mono [OF assms(2)] queue(5)) (simp_all add: queue(4) channelsOpen_def)
next
  case (handover result rs)
  have h: "sum_mset (image_mset held (mset ((workers s)[k := Idle]))) + {#ResInputPath result#}
      = sum_mset (image_mset held (mset (workers s)))"
    using held_update [OF handover(1), of Idle] handover(2) by (simp add: held_def)
  have "inFlight s' + {#ResInputPath result#} = inFlight s"
    unfolding handover(6) inFlight_def using h by (simp add: ac_simps)
  then have eq: "inFlight s' + mset (map ResInputPath (rs @ [result]))
      = inFlight s + mset (map ResInputPath rs)"
    by (simp add: ac_simps)
  from assms(2) handover(4) have co: "channelsOpen (pool s)"
    and sub: "inFlight s + mset (map ResInputPath rs) \<subseteq># mset imagePaths"
    by (simp_all add: batchInv_def)
  have sub': "inFlight s' + mset (map ResInputPath (rs @ [result])) \<subseteq># mset imagePaths"
    unfolding eq by (rule sub)
  have pc: "mainPc s' = Collecting (rs @ [result])" and po: "pool s' = pool s"
    by (simp_all add: handover(6))
  show ?thesis
    unfolding batchInv_def pc mainState.case po using co sub' by (rule conjI)
qed

lemma inv_WorkerStop:
  assumes "step env lib cfg imagePaths (WorkerStop k) s = Some s'" "batchInv imagePaths s"
  shows "batchInv imagePaths s'"
proof -
  from assms(1) have nr: "\<And>rs err. mainPc s \<noteq> Returned rs err"
    by (auto split: mainState.splits)
  from assms(1) have k: "k < length (workers s)"
    and s': "s' = s\<lparr>workers := (workers s)[k := Exited]\<rparr>"
    by (auto simp: Let_def split: mainState.splits if_splits)
  have "sum_mset (image_mset held (mset ((workers s)[k := Exited]))) + held (workers s ! k)
      = sum_mset (image_mset held (mset (workers s)))"
    using held_update [OF k, of Exited] by (simp add: held_def)
  then have "sum_mset (image_mset held (mset ((workers s)[k := Exited])))
      \<subseteq># sum_mset (image_mset held (mset (workers s)))"
    by (metis mset_subset_eq_add_left)
  then have "inFlight s' \<subseteq># inFlight s"
    by (simp add: s' inFlight_def)
  then show ?thesis
    by (intro batchInv_inFlight_mono [OF assms(2)] nr) (simp_all add: s' channelsOpen_def)
qed

lemma step_batchInv:
  assumes "step env lib cfg imagePaths a s = Some s'" "batchInv imagePaths s"
  shows "batchInv imagePaths s'"
  using assms
  by (cases a)
     (blast intro: inv_Cancel inv_Submit inv_Receive inv_ObserveDone inv_Finish
        inv_WorkerTake inv_WorkerSend inv_WorkerStop)+

lemma steps_batchInv:
  assumes "steps env lib cfg imagePaths as s = Some s'" "batchInv imagePaths s"
  shows "batchInv imagePaths s'"
  using assms
proof (induction as arbitrary: s)
  case Nil
  then show ?case by simp
next
  case (Cons a as)
  then obtain s1 where "step env lib cfg imagePaths a s = Some s1"
      "steps env lib cfg imagePaths as s1 = Some s'"
    by (auto split: option.splits)
  then show ?case using Cons.IH Cons.prems(2) step_batchInv by blast
qed

lemma steps_snoc:
  "steps env lib cfg imagePaths (as @ [a]) s = Some s' \<longleftrightarrow>
     (\<exists>s1. steps env lib cfg imagePaths as s = Some s1 \<and> step env lib cfg imagePaths a s1 = Some s')"
  by (induction as arbitrary: s) (auto split: option.splits)

lemma step_ObserveDone_Returned:
  assumes "step env lib cfg imagePaths ObserveDone s1 = Some s" "mainPc s = Returned results err"
  shows "err = Some ContextError"
  using assms
  by (auto simp: returnWith_def split: mainState.splits if_splits sum.splits)

text \<open>
  Whatever the schedule of the goroutines: when \<^verbatim>\<open>ProcessImages\<close> has returned
  \<open>(results, err)\<close>, the error is either nil or the context's error, and it is nil when the
  context was never cancelled. With a nil error there is exactly one result per submitted
  path (as many results as paths, and the input paths of the results are the submitted
  paths, each as often as it was submitted). A return through the \<^verbatim>\<open><-ctx.Done()\<close> case of
  the collection loop carries the context's error; with that error the context was
  cancelled, the results are fewer than the paths, and their input paths are among the
  submitted ones, none more often than it was submitted.
\<close>

lemma ProcessImages_returned:
  assumes new: "New cfg = Inr p"
    and "ProcessImages env lib p schedule w imagePaths = Some s"
    "mainPc s = Returned results err"
  shows "(err = None \<or> err = Some ContextError) \<and>
         (\<not> cancelled s \<longrightarrow> err = None) \<and>
         (err = None \<longrightarrow>
            length results = length imagePaths \<and>
            mset (map ResInputPath results) = mset imagePaths) \<and>
         (schedule \<noteq> [] \<and> last schedule = ObserveDone \<longrightarrow> err = Some ContextError) \<and>
         (err = Some ContextError \<longrightarrow>
            cancelled s \<and> length results < length imagePaths \<and>
            mset (map ResInputPath results) \<subseteq># mset imagePaths)"
proof -
  have run: "steps env lib (config p) imagePaths schedule (started p imagePaths w) = Some s"
    using assms(2) by (simp add: ProcessImages_def)
  from steps_batchInv [OF run batchInv_started [OF new]] assms(3)
  have sub: "mset (map ResInputPath results) \<subseteq># mset imagePaths"
    and e: "case err of None \<Rightarrow> length imagePaths \<le> length results
              | Some e \<Rightarrow> e = ContextError \<and> cancelled s \<and> length results < length imagePaths"
    by (simp_all add: batchInv_def)
  have le: "length results \<le> length imagePaths"
    using size_mset_mono [OF sub] by simp
  have none: "length results = length imagePaths \<and> mset (map ResInputPath results) = mset imagePaths"
    if "err = None"
  proof -
    from that e le have l: "length results = length imagePaths" by simp
    then have "size (mset imagePaths) = size (mset (map ResInputPath results))" by simp
    with sub have "mset (map ResInputPath results) = mset imagePaths"
      using mset_subset_size [of "mset (map ResInputPath results)" "mset imagePaths"]
      by (auto simp: subset_mset.less_le)
    with l show ?thesis by simp
  qed
  have obs: "err = Some ContextError" if "schedule \<noteq> []" "last schedule = ObserveDone"
  proof -
    from that have "schedule = butlast schedule @ [ObserveDone]"
      by (metis append_butlast_last_id)
    with run obtain s1 where "step env lib (config p) imagePaths ObserveDone s1 = Some s"
      by (metis steps_snoc)
    then show ?thesis using assms(3) by (rule step_ObserveDone_Returned)
  qed
  show ?thesis using e sub none obs by (cases err) auto
qed

subsection \<open>An example\<close>

text \<open>
  An example: every file holds a 1 x 1 image with the pixel (10, 20, 30, 255), the filter
  is grayscale, and the world is the list of the files written.
\<close>

lemma gray_ImageToRGBA:
  "ImageToRGBA \<lparr>Bounds = \<lparr>MinX = 0, MinY = 0, MaxX = 1, MaxY = 1\<rparr>, At = (\<lambda>x y. (10, 20, 30, 255))\<rparr>
     = Inr \<lparr>Pix = [10, 20, 30, 255], Stride = 4, Rect = \<lparr>MinX = 0, MinY = 0, MaxX = 1, MaxY = 1\<rparr>\<rparr>"
  by (simp add: ImageToRGBA_def NewRGBA_def Dx_def Dy_def SetRGBA_def PointIn_def PixOffset_def
      setPixel_def eval_nat_numeral)

lemma gray_ExtractRowPixels:
  "ExtractRowPixels \<lparr>Pix = [10, 20, 30, 255], Stride = 4,
       Rect = \<lparr>MinX = 0, MinY = 0, MaxX = 1, MaxY = 1\<rparr>\<rparr> 0 = Inr (Some [10, 20, 30, 255])"
  by (simp add: ExtractRowPixels_def Dx_def Dy_def RGBAAt_def PointIn_def PixOffset_def
      pixelAtI_def pixelAt_def setPixel_def eval_nat_numeral)

lemma gray_ApplyGrayScale: "ApplyGrayScale [10, 20, 30, 255] 1 params = Inr [18, 18, 18, 255]"
  by (simp add: ApplyGrayScale_def pixelLoop.simps pixelAt_def setPixel_def g1)

lemma grayscale_registered: "FilterRegistry ''grayscale'' = Some ApplyGrayScale"
  by (simp add: FilterRegistry_def FilterBlur_def FilterBrightness_def FilterConstrast_def
      FilterGrayScale_def)

lemma gray_fanOut:
  assumes "Filter job = ''grayscale''"
  shows "fanOut \<lparr>Pix = [10, 20, 30, 255], Stride = 4,
             Rect = \<lparr>MinX = 0, MinY = 0, MaxX = 1, MaxY = 1\<rparr>\<rparr> job [0]
   = Inr [\<lparr>ImageID = ID job, RowIndex = 0, Pixels = Some [18, 18, 18, 255], RowError = None\<rparr>]"
  by (simp add: fanOut_def Dx_def Dy_def rowTask_def gray_ExtractRowPixels assms
      grayscale_registered gray_ApplyGrayScale)

lemma gray_SetRowPixels:
  "SetRowPixels \<lparr>Pix = [10, 20, 30, 255], Stride = 4,
       Rect = \<lparr>MinX = 0, MinY = 0, MaxX = 1, MaxY = 1\<rparr>\<rparr> 0 [18, 18, 18, 255]
     = Inr \<lparr>Pix = [18, 18, 18, 255], Stride = 4, Rect = \<lparr>MinX = 0, MinY = 0, MaxX = 1, MaxY = 1\<rparr>\<rparr>"
  by (simp add: SetRowPixels_def Dx_def Dy_def SetRGBA_def PointIn_def PixOffset_def
      pixelAt_def setPixel_def eval_nat_numeral)

lemma gray_ProcessSingleImage:
  assumes "Filter job = ''grayscale''" "100 \<le> CfgMaxFileSize cfg"
  shows "ProcessSingleImage
       \<lparr>Stat = (\<lambda>w p. Inr 100),
        loadImage = (\<lambda>w p. Inr (\<lparr>Bounds = \<lparr>MinX = 0, MinY = 0, MaxX = 1, MaxY = 1\<rparr>,
                                   At = (\<lambda>x y. (10, 20, 30, 255))\<rparr>, ''png'')),
        saveImage = (\<lambda>w img p f q. (None, p # w))\<rparr>
       cfg [0] w job
     = Inr (\<lparr>ResInputPath = InputPath job, ResOutputPath = OutputPath job, ResError = None,
             Metadata = \<lparr>Width = 1, Height = 1, Format = ''png'', OriginalSize = 100,
                          ProcessedSize = 0, RowsProcessed = 1\<rparr>\<rparr>,
            OutputPath job # w)"
  using assms(2)
  by (simp add: ProcessSingleImage_def gray_ImageToRGBA gray_fanOut [OF assms(1)] Dx_def Dy_def
      gray_SetRowPixels emptyMetadata_def)

lemma example_New:
  "New \<lparr>CfgOutputDir = ''out'', CfgFilter = ''grayscale'', CfgWorkers = 1, CfgQuality = 95,
        CfgBlurRadius = 2, CfgBrightness = 6 / 5, CfgContrast = 11 / 10,
        CfgMaxFileSize = 1000, CfgBufferSize = 1\<rparr>
   = Inr \<lparr>config = \<lparr>CfgOutputDir = ''out'', CfgFilter = ''grayscale'', CfgWorkers = 1,
                      CfgQuality = 95, CfgBlurRadius = 2, CfgBrightness = 6 / 5,
                      CfgContrast = 11 / 10, CfgMaxFileSize = 1000, CfgBufferSize = 1\<rparr>,
           workerPool = \<lparr>workerCount = 1, jobQueue = makeChan 1, resultQueue = makeChan 1,
                          rowJobQueue = makeChan 10, rowResults = makeChan 10,
                          quit = makeChan 0, wg = 0\<rparr>\<rparr>"
  by (simp add: New_def NewWorkerPool_def wrap64_def)

text \<open>A batch of one path that returns its result, and one that is cancelled.\<close>

lemma ProcessImages_returned_example:
  "(\<exists>s results.
      ProcessImages
        \<lparr>Stat = (\<lambda>w p. Inr 100),
         loadImage = (\<lambda>w p. Inr (\<lparr>Bounds = \<lparr>MinX = 0, MinY = 0, MaxX = 1, MaxY = 1\<rparr>,
                                    At = (\<lambda>x y. (10, 20, 30, 255))\<rparr>, ''png'')),
         saveImage = (\<lambda>w img p f q. (None, p # w))\<rparr>
        \<lparr>pathDir = (\<lambda>p. ''.''), pathBase = (\<lambda>p. p), pathExt = (\<lambda>p. []),
         pathJoin = (\<lambda>d f. d @ ''/'' @ f)\<rparr>
        \<lparr>config = \<lparr>CfgOutputDir = ''out'', CfgFilter = ''grayscale'', CfgWorkers = 1,
                      CfgQuality = 95, CfgBlurRadius = 2, CfgBrightness = 6 / 5,
                      CfgContrast = 11 / 10, CfgMaxFileSize = 1000, CfgBufferSize = 1\<rparr>,
           workerPool = \<lparr>workerCount = 1, jobQueue = makeChan 1, resultQueue = makeChan 1,
                          rowJobQueue = makeChan 10, rowResults = makeChan 10,
                          quit = makeChan 0, wg = 0\<rparr>\<rparr>
        [Submit, WorkerTake 0 [0], WorkerSend 0, Receive, Finish] [] [''a.png''] = Some s \<and>
      mainPc s = Returned results None \<and>
      length results = 1 \<and> mset (map ResInputPath results) = {#''a.png''#}) \<and>
   (\<exists>s results.
      ProcessImages
        \<lparr>Stat = (\<lambda>w p. Inr 100),
         loadImage = (\<lambda>w p. Inr (\<lparr>Bounds = \<lparr>MinX = 0, MinY = 0, MaxX = 1, MaxY = 1\<rparr>,
                                    At = (\<lambda>x y. (10, 20, 30, 255))\<rparr>, ''png'')),
         saveImage = (\<lambda>w img p f q. (None, p # w))\<rparr>
        \<lparr>pathDir = (\<lambda>p. ''.''), pathBase = (\<lambda>p. p), pathExt = (\<lambda>p. []),
         pathJoin = (\<lambda>d f. d @ ''/'' @ f)\<rparr>
        \<lparr>config = \<lparr>CfgOutputDir = ''out'', CfgFilter = ''grayscale'', CfgWorkers = 1,
                      CfgQuality = 95, CfgBlurRadius = 2, CfgBrightness = 6 / 5,
                      CfgContrast = 11 / 10, CfgMaxFileSize = 1000, CfgBufferSize = 1\<rparr>,
           workerPool = \<lparr>workerCount = 1, jobQueue = makeChan 1, resultQueue = makeChan 1,
                          rowJobQueue = makeChan 10, rowResults = makeChan 10,
                          quit = makeChan 0, wg = 0\<rparr>\<rparr>
        [Submit, Cancel, ObserveDone] [] [''a.png''] = Some s \<and>
      mainPc s = Returned results (Some ContextError) \<and>
      cancelled s \<and> length results < 1)"
proof -
  let ?cfg = "\<lparr>CfgOutputDir = ''out'', CfgFilter = ''grayscale'', CfgWorkers = 1, CfgQuality = 95,
        CfgBlurRadius = 2, CfgBrightness = 6 / 5, CfgContrast = 11 / 10,
        CfgMaxFileSize = 1000, CfgBufferSize = 1\<rparr>"
  let ?p = "\<lparr>config = ?cfg,
           workerPool = \<lparr>workerCount = 1, jobQueue = makeChan 1, resultQueue = makeChan 1,
                          rowJobQueue = makeChan 10, rowResults = makeChan 10,
                          quit = makeChan 0, wg = 0\<rparr>\<rparr>"
  let ?env = "\<lparr>Stat = (\<lambda>w p. Inr 100),
         loadImage = (\<lambda>w p. Inr (\<lparr>Bounds = \<lparr>MinX = 0, MinY = 0, MaxX = 1, MaxY = 1\<rparr>,
                                    At = (\<lambda>x y. (10, 20, 30, 255))\<rparr>, ''png'')),
         saveImage = (\<lambda>w img p f q. (None, p # w))\<rparr> :: string list Env"
  let ?lib = "\<lparr>pathDir = (\<lambda>p. ''.''), pathBase = (\<lambda>p. p), pathExt = (\<lambda>p. []),
         pathJoin = (\<lambda>d f. d @ ''/'' @ f)\<rparr>"
  have A: "\<exists>s results.
      ProcessImages ?env ?lib ?p [Submit, WorkerTake 0 [0], WorkerSend 0, Receive, Finish] []
        [''a.png''] = Some s \<and> mainPc s = Returned results None"
    by (simp add: ProcessImages_def started_def afterSubmit_def makeChan_def
        Let_def workerRuns_def makeJob_def gray_ProcessSingleImage returnWith_def Stop_def
        bindPanic_def closeChan_def wgWait_def)
  have B: "\<exists>s results.
      ProcessImages ?env ?lib ?p [Submit, Cancel, ObserveDone] [] [''a.png''] = Some s \<and>
      mainPc s = Returned results (Some ContextError)"
    by (simp add: ProcessImages_def started_def afterSubmit_def makeChan_def
        Let_def returnWith_def Stop_def bindPanic_def closeChan_def wgWait_def)
  from A obtain s1 r1 where
    a: "ProcessImages ?env ?lib ?p [Submit, WorkerTake 0 [0], WorkerSend 0, Receive, Finish] []
        [''a.png''] = Some s1" "mainPc s1 = Returned r1 None"
    by blast
  from B obtain s2 r2 where
    b: "ProcessImages ?env ?lib ?p [Submit, Cancel, ObserveDone] [] [''a.png''] = Some s2"
      "mainPc s2 = Returned r2 (Some ContextError)"
    by blast
  from ProcessImages_returned [OF example_New a]
  have c: "length r1 = 1 \<and> mset (map ResInputPath r1) = {#''a.png''#}" by simp
  from ProcessImages_returned [OF example_New b]
  have d: "cancelled s2 \<and> length r2 < 1" by simp
  show ?thesis
    apply (rule conjI)
     apply (rule exI [of _ s1], rule exI [of _ r1])
     apply (simp only: a c simp_thms)
    apply (rule exI [of _ s2], rule exI [of _ r2])
    apply (simp only: b d simp_thms)
    done
qed

section \<open>A batch within the capacity of the pool\<close>

lemma busy_le: "busy ws \<le> length ws"
  by (simp add: busy_def)

lemma busy_update:
  assumes "k < length ws"
  shows "busy (ws[k := v]) + (if ws ! k \<noteq> Idle then 1 else 0)
           = busy ws + (if v \<noteq> Idle then 1 else 0)"
  using assms
proof (induction ws arbitrary: k)
  case Nil
  then show ?case by simp
next
  case (Cons a ws)
  show ?case
  proof (cases k)
    case 0
    then show ?thesis by (simp add: busy_def)
  next
    case (Suc j)
    then have "j < length ws" using Cons.prems by simp
    from Cons.IH [OF this] show ?thesis by (auto simp: busy_def Suc split: if_splits)
  qed
qed

lemma liveInv_started:
  assumes new: "New cfg = Inr p"
  shows "liveInv lib cfg' imagePaths (nat (CfgBufferSize cfg)) (nat (CfgWorkers cfg))
           (started p imagePaths w)"
  using New_pool(2-5) [OF new]
  by (auto simp: liveInv_def started_def afterSubmit_def makeChan_def channelsOpen_def busy_def)

lemma pending_started:
  assumes new: "New cfg = Inr p"
  shows "pending (length imagePaths) (started p imagePaths w) \<le> 4 * length imagePaths + 1"
  using New_pool(3,4) [OF new]
  by (simp add: pending_def started_def afterSubmit_def makeChan_def busy_def)

lemma not_Exited_update:
  assumes "Exited \<notin> set ws" "v \<noteq> Exited"
  shows "Exited \<notin> set (ws[k := v])"
  using assms set_update_subset_insert [of ws k v] by auto

text \<open>
  As long as the context is not cancelled, every step moves a job forward: it keeps the
  count of the jobs and takes something off what is still to be done.
\<close>

lemma step_liveInv:
  assumes I: "liveInv lib cfg imagePaths B W s"
    and st: "step env lib cfg imagePaths a s = Some s'"
    and a: "a \<noteq> Cancel"
    and nc: "\<And>e. mainPc s' \<noteq> Crashed e"
  shows "liveInv lib cfg imagePaths B W s' \<and>
         pending (length imagePaths) s' < pending (length imagePaths) s"
proof -
  let ?n = "length imagePaths"
  let ?jq = "chBuf (jobQueue (pool s))" and ?rq = "chBuf (resultQueue (pool s))"
  from st a have nr: "\<And>rs err. mainPc s \<noteq> Returned rs err"
    by (cases a) (auto split: mainState.splits)
  from I have ncs: "\<And>e. mainPc s \<noteq> Crashed e" by (auto simp: liveInv_def)
  from I nr ncs have base: "\<not> cancelled s" "channelsOpen (pool s)" "length (workers s) = W"
      "chCap (jobQueue (pool s)) = B" "chCap (resultQueue (pool s)) = B"
      "length ?jq \<le> B" "length ?rq \<le> B" "Exited \<notin> set (workers s)"
      "\<forall>job\<in>set ?jq. \<exists>i<length imagePaths. job = makeJob lib cfg i (imagePaths ! i)"
    by (auto simp: liveInv_def split: mainState.splits)
  show ?thesis
  proof (cases a)
    case Cancel
    then show ?thesis using a by simp
  next
    case Submit
    from st Submit obtain i where i: "mainPc s = Submitting i" "i < ?n"
        "length ?jq < chCap (jobQueue (pool s))"
      and s': "s' = s\<lparr>pool := (pool s)\<lparr>jobQueue := (jobQueue (pool s))
                \<lparr>chBuf := ?jq @ [makeJob lib cfg i (imagePaths ! i)]\<rparr>\<rparr>,
              mainPc := afterSubmit imagePaths (i + 1)\<rparr>"
      by (auto simp: Let_def split: mainState.splits if_splits)
    from I i(1) have c: "i = length ?jq + length ?rq + busy (workers s)"
      by (simp add: liveInv_def)
    have "\<exists>j<length imagePaths. makeJob lib cfg i (imagePaths ! i) = makeJob lib cfg j (imagePaths ! j)"
      using i(2) by blast
    then have jobs: "\<forall>job\<in>set (?jq @ [makeJob lib cfg i (imagePaths ! i)]).
        \<exists>j<length imagePaths. job = makeJob lib cfg j (imagePaths ! j)"
      using base(9) by auto
    have co: "channelsOpen (pool s')" using base(2) by (simp add: s' channelsOpen_def)
    have f: "cancelled s' = cancelled s" "workers s' = workers s"
      "chCap (jobQueue (pool s')) = chCap (jobQueue (pool s))"
      "resultQueue (pool s') = resultQueue (pool s)"
      "chBuf (jobQueue (pool s')) = ?jq @ [makeJob lib cfg i (imagePaths ! i)]"
      by (simp_all add: s')
    show ?thesis
    proof (cases "i + 1 < ?n")
      case True
      then have pc: "mainPc s' = Submitting (i + 1)" by (simp add: s' afterSubmit_def)
      have "liveInv lib cfg imagePaths B W s'"
        unfolding liveInv_def pc mainState.case f
        using True c base(1,3-8) i(3) co jobs by simp
      moreover have "pending ?n s' < pending ?n s"
        unfolding pending_def pc i(1) using True by (simp add: s' Let_def)
      ultimately show ?thesis ..
    next
      case False
      then have n: "i + 1 = ?n" using i(2) by simp
      have pc: "mainPc s' = Collecting []" using False by (simp add: s' afterSubmit_def)
      have "liveInv lib cfg imagePaths B W s'"
        unfolding liveInv_def pc mainState.case f
        using n c base(1,3-8) i(3) co jobs by simp
      moreover have "pending ?n s' < pending ?n s"
        unfolding pending_def pc i(1) using n by (simp add: s' Let_def)
      ultimately show ?thesis ..
    qed
  next
    case Receive
    from st Receive obtain rs r rest where rs: "mainPc s = Collecting rs" "?rq = r # rest"
        "length rs < ?n"
      and s': "s' = s\<lparr>pool := (pool s)\<lparr>resultQueue := (resultQueue (pool s))\<lparr>chBuf := rest\<rparr>\<rparr>,
                     mainPc := Collecting (rs @ [r])\<rparr>"
      by (auto simp: Let_def split: mainState.splits list.splits if_splits)
    from I rs(1) have c: "length ?jq + length ?rq + busy (workers s) + length rs = ?n"
      by (simp add: liveInv_def)
    have pc: "mainPc s' = Collecting (rs @ [r])" by (simp add: s')
    have "liveInv lib cfg imagePaths B W s'"
      unfolding liveInv_def pc using c base rs(2) by (auto simp: s' channelsOpen_def)
    moreover have "pending ?n s' < pending ?n s"
      unfolding pending_def pc rs(1) using rs(2) by (simp add: s' Let_def)
    ultimately show ?thesis ..
  next
    case ObserveDone
    then show ?thesis using st base(1) by (auto split: mainState.splits if_splits)
  next
    case Finish
    from st Finish obtain rs where rs: "mainPc s = Collecting rs" "\<not> length rs < ?n"
      and s': "s' = returnWith s rs None"
      by (auto split: mainState.splits if_splits)
    from I rs(1) have c: "length ?jq + length ?rq + busy (workers s) + length rs = ?n"
      by (simp add: liveInv_def)
    then have l: "length rs = ?n" using rs(2) by simp
    have pc: "mainPc s' = Returned rs None"
      using returnWith_open(1) [OF base(2)] by (simp add: s')
    have "liveInv lib cfg imagePaths B W s'" unfolding liveInv_def pc using l by simp
    moreover have "pending ?n s' < pending ?n s"
      unfolding pending_def pc rs(1) by (simp add: Let_def)
    ultimately show ?thesis ..
  next
    case (WorkerTake k order)
    from st [unfolded WorkerTake] show ?thesis
    proof (cases rule: step_WorkerTake_cases)
      case (queue job rest)
      let ?s0 = "s\<lparr>pool := (pool s)\<lparr>jobQueue := (jobQueue (pool s))\<lparr>chBuf := rest\<rparr>\<rparr>\<rparr>"
      have k: "k < length (workers ?s0)" "workers ?s0 ! k = Idle" using queue(2,3) by simp_all
      from workerRuns_cases [OF k, of env cfg order job]
      show ?thesis
      proof (elim disjE exE conjE)
        fix e assume "workerRuns env cfg order k job ?s0 = ?s0\<lparr>mainPc := Crashed e\<rparr>"
        then show ?thesis using nc [of e] by (simp add: queue(4))
      next
        fix result w'
        assume e: "workerRuns env cfg order k job ?s0
            = ?s0\<lparr>workers := (workers ?s0)[k := Holding result], world := w'\<rparr>"
        have s'e: "s' = ?s0\<lparr>workers := (workers ?s0)[k := Holding result], world := w'\<rparr>"
          using queue(4) e by simp
        have b1: "busy ((workers s)[k := Holding result]) = busy (workers s) + 1"
          using busy_update [OF queue(2), of "Holding result"] queue(3) by simp
        have ne: "Exited \<notin> set ((workers s)[k := Holding result])"
          by (rule not_Exited_update [OF base(8)]) simp
        have pc: "mainPc s' = mainPc s" by (simp add: s'e)
        have "liveInv lib cfg imagePaths B W s'"
          using I base b1 ne queue(1) ncs nr
          by (cases "mainPc s") (auto simp: liveInv_def s'e channelsOpen_def)
        moreover have "pending ?n s' < pending ?n s"
          using b1 queue(1) ncs nr
          by (cases "mainPc s") (auto simp: pending_def s'e Let_def)
        ultimately show ?thesis ..
      qed
    next
      case (handover i)
      let ?job = "makeJob lib cfg i (imagePaths ! i)"
      let ?s0 = "s\<lparr>mainPc := afterSubmit imagePaths (i + 1)\<rparr>"
      have k: "k < length (workers ?s0)" "workers ?s0 ! k = Idle" using handover(5,6) by simp_all
      from I handover(3) have c: "i = length ?jq + length ?rq + busy (workers s)"
        by (simp add: liveInv_def)
      from workerRuns_cases [OF k, of env cfg order ?job]
      show ?thesis
      proof (elim disjE exE conjE)
        fix e assume "workerRuns env cfg order k ?job ?s0 = ?s0\<lparr>mainPc := Crashed e\<rparr>"
        then show ?thesis using nc [of e] by (simp add: handover(7))
      next
        fix result w'
        assume e: "workerRuns env cfg order k ?job ?s0
            = ?s0\<lparr>workers := (workers ?s0)[k := Holding result], world := w'\<rparr>"
        have s'e: "s' = ?s0\<lparr>workers := (workers ?s0)[k := Holding result], world := w'\<rparr>"
          using handover(7) e by simp
        have b1: "busy ((workers s)[k := Holding result]) = busy (workers s) + 1"
          using busy_update [OF handover(5), of "Holding result"] handover(6) by simp
        have ne: "Exited \<notin> set ((workers s)[k := Holding result])"
          by (rule not_Exited_update [OF base(8)]) simp
        show ?thesis
        proof (cases "i + 1 < ?n")
          case True
          then have pc: "mainPc s' = Submitting (i + 1)" by (simp add: s'e afterSubmit_def)
          have "liveInv lib cfg imagePaths B W s'"
            unfolding liveInv_def pc using True c base b1 ne handover(1)
            by (auto simp: s'e channelsOpen_def)
          moreover have "pending ?n s' < pending ?n s"
            unfolding pending_def pc handover(3) using True b1 by (simp add: s'e Let_def)
          ultimately show ?thesis ..
        next
          case False
          then have n: "i + 1 = ?n" using handover(4) by simp
          have pc: "mainPc s' = Collecting []" using False by (simp add: s'e afterSubmit_def)
          have "liveInv lib cfg imagePaths B W s'"
            unfolding liveInv_def pc using n c base b1 ne handover(1)
            by (auto simp: s'e channelsOpen_def)
          moreover have "pending ?n s' < pending ?n s"
            unfolding pending_def pc handover(3) using n b1 by (simp add: s'e Let_def)
          ultimately show ?thesis ..
        qed
      qed
    qed
  next
    case (WorkerSend k)
    from st [unfolded WorkerSend] show ?thesis
    proof (cases rule: step_WorkerSend_cases)
      case (queue result)
      have b1: "busy ((workers s)[k := Idle]) + 1 = busy (workers s)"
        using busy_update [OF queue(1), of Idle] queue(2) by simp
      have ne: "Exited \<notin> set ((workers s)[k := Idle])"
        by (rule not_Exited_update [OF base(8)]) simp
      have "liveInv lib cfg imagePaths B W s'"
        using I base b1 ne queue(3) ncs nr
        by (cases "mainPc s") (auto simp: liveInv_def queue(4) channelsOpen_def)
      moreover have "pending ?n s' < pending ?n s"
        using b1 ncs nr
        by (cases "mainPc s") (auto simp: pending_def queue(4) Let_def)
      ultimately show ?thesis ..
    next
      case (handover result rs)
      have b1: "busy ((workers s)[k := Idle]) + 1 = busy (workers s)"
        using busy_update [OF handover(1), of Idle] handover(2) by simp
      have ne: "Exited \<notin> set ((workers s)[k := Idle])"
        by (rule not_Exited_update [OF base(8)]) simp
      from I handover(4) have c: "length ?jq + length ?rq + busy (workers s) + length rs = ?n"
        by (simp add: liveInv_def)
      have pc: "mainPc s' = Collecting (rs @ [result])" by (simp add: handover(6))
      have "liveInv lib cfg imagePaths B W s'"
        unfolding liveInv_def pc using c base b1 ne by (auto simp: handover(6) channelsOpen_def)
      moreover have "pending ?n s' < pending ?n s"
        unfolding pending_def pc handover(4) using b1 by (auto simp: handover(6) Let_def)
      ultimately show ?thesis ..
    qed
  next
    case (WorkerStop k)
    then show ?thesis using st base(1) by (auto split: mainState.splits if_splits)
  qed
qed

lemma busy_no_Idle: "Idle \<notin> set ws \<Longrightarrow> busy ws = length ws"
  by (induction ws) (auto simp: busy_def)

lemma busy_all_Idle: "\<forall>w\<in>set ws. w = Idle \<Longrightarrow> busy ws = 0"
  by (induction ws) (auto simp: busy_def)

lemma workerRuns_Inr:
  assumes "ProcessSingleImage env cfg order (world s) job = Inr (r, w')"
  shows "workerRuns env cfg order k job s = s\<lparr>workers := (workers s)[k := Holding r], world := w'\<rparr>"
  using assms by (simp add: workerRuns_def)

lemma afterSubmit_not_Crashed: "afterSubmit imagePaths i \<noteq> Crashed e"
  by (simp add: afterSubmit_def)

text \<open>
  With at least one worker and at most \<open>2 * B + W\<close> paths, a run that has not returned and
  whose context is not cancelled can take a step, as long as no job makes
  \<^verbatim>\<open>ProcessSingleImage\<close> panic (\<open>ord\<close> gives the order in which the rows of a job arrive).
\<close>

lemma live_enabled:
  assumes I: "liveInv lib cfg imagePaths B W s"
    and W: "0 < W" and small: "length imagePaths \<le> 2 * B + W"
    and noPanic: "\<And>w i. i < length imagePaths \<Longrightarrow>
        \<exists>r w'. ProcessSingleImage env cfg (ord w (makeJob lib cfg i (imagePaths ! i))) w
                  (makeJob lib cfg i (imagePaths ! i)) = Inr (r, w')"
    and nr: "\<And>rs err. mainPc s \<noteq> Returned rs err"
  shows "\<exists>a s'. a \<noteq> Cancel \<and> step env lib cfg imagePaths a s = Some s' \<and>
           (\<forall>e. mainPc s' \<noteq> Crashed e)"
proof -
  let ?n = "length imagePaths"
  let ?jq = "chBuf (jobQueue (pool s))" and ?rq = "chBuf (resultQueue (pool s))"
  from I have ncs: "\<And>e. mainPc s \<noteq> Crashed e" by (auto simp: liveInv_def)
  from I nr ncs have base: "\<not> cancelled s" "channelsOpen (pool s)" "length (workers s) = W"
      "chCap (jobQueue (pool s)) = B" "chCap (resultQueue (pool s)) = B"
      "length ?jq \<le> B" "length ?rq \<le> B" "Exited \<notin> set (workers s)"
      "\<forall>job\<in>set ?jq. \<exists>i<length imagePaths. job = makeJob lib cfg i (imagePaths ! i)"
    by (auto simp: liveInv_def split: mainState.splits)
  have take: "\<exists>s'. step env lib cfg imagePaths (WorkerTake k (ord (world s) job)) s = Some s' \<and>
           (\<forall>e. mainPc s' \<noteq> Crashed e)"
    if "k < length (workers s)" "workers s ! k = Idle" "?jq = job # rest" for k job rest
  proof -
    let ?s0 = "s\<lparr>pool := (pool s)\<lparr>jobQueue := (jobQueue (pool s))\<lparr>chBuf := rest\<rparr>\<rparr>\<rparr>"
    have "job \<in> set ?jq" using that(3) by simp
    with base(9) obtain i where "i < length imagePaths" "job = makeJob lib cfg i (imagePaths ! i)"
      by blast
    with noPanic [of i "world s"] obtain r w' where
      "ProcessSingleImage env cfg (ord (world s) job) (world ?s0) job = Inr (r, w')" by auto
    from workerRuns_Inr [OF this, of k]
    have "step env lib cfg imagePaths (WorkerTake k (ord (world s) job)) s
        = Some (?s0\<lparr>workers := (workers ?s0)[k := Holding r], world := w'\<rparr>)"
      using that ncs nr by (cases "mainPc s") (auto simp: Let_def)
    moreover have "mainPc (?s0\<lparr>workers := (workers ?s0)[k := Holding r], world := w'\<rparr>) = mainPc s"
      by simp
    ultimately show ?thesis using ncs by auto
  qed
  show ?thesis
  proof (cases "mainPc s")
    case (Submitting i)
    with I have i: "i < ?n" and c: "i = length ?jq + length ?rq + busy (workers s)"
      by (simp_all add: liveInv_def)
    show ?thesis
    proof (cases "length ?jq < B")
      case True
      have "step env lib cfg imagePaths Submit s
          = Some (s\<lparr>pool := (pool s)\<lparr>jobQueue := (jobQueue (pool s))
                \<lparr>chBuf := ?jq @ [makeJob lib cfg i (imagePaths ! i)]\<rparr>\<rparr>,
              mainPc := afterSubmit imagePaths (i + 1)\<rparr>)"
        using Submitting i True base(4) by (simp add: Let_def)
      then show ?thesis using afterSubmit_not_Crashed by fastforce
    next
      case False
      then have full: "length ?jq = B" using base(6) by simp
      show ?thesis
      proof (cases "Idle \<in> set (workers s)")
        case True
        then obtain k where k: "k < length (workers s)" "workers s ! k = Idle"
          by (auto simp: in_set_conv_nth)
        show ?thesis
        proof (cases ?jq)
          case (Cons job rest)
          from take [OF k Cons] obtain s' where
            "step env lib cfg imagePaths (WorkerTake k (ord (world s) job)) s = Some s'"
            "\<forall>e. mainPc s' \<noteq> Crashed e"
            by blast
          then show ?thesis by blast
        next
          case Nil
          then have B0: "chCap (jobQueue (pool s)) = 0" using full base(4) by simp
          let ?job = "makeJob lib cfg i (imagePaths ! i)"
          let ?s0 = "s\<lparr>mainPc := afterSubmit imagePaths (i + 1)\<rparr>"
          from noPanic [OF i, of "world s"] obtain r w' where
            "ProcessSingleImage env cfg (ord (world s) ?job) (world ?s0) ?job = Inr (r, w')"
            by auto
          from workerRuns_Inr [OF this, of k]
          have "step env lib cfg imagePaths (WorkerTake k (ord (world s) ?job)) s
              = Some (?s0\<lparr>workers := (workers ?s0)[k := Holding r], world := w'\<rparr>)"
            using Submitting i k Nil B0 by (simp add: Let_def)
          moreover have "mainPc (?s0\<lparr>workers := (workers ?s0)[k := Holding r], world := w'\<rparr>)
              = afterSubmit imagePaths (i + 1)"
            by simp
          ultimately show ?thesis using afterSubmit_not_Crashed by fastforce
        qed
      next
        case False
        then have b: "busy (workers s) = W" using busy_no_Idle base(3) by auto
        have m0: "workers s ! 0 \<in> set (workers s)" using W base(3) by simp
        have "workers s ! 0 \<noteq> Idle" "workers s ! 0 \<noteq> Exited"
          using m0 False base(8) by metis+
        then obtain r where r: "workers s ! 0 = Holding r"
          by (cases "workers s ! 0") simp_all
        have room: "length ?rq < B"
        proof (rule ccontr)
          assume "\<not> length ?rq < B"
          then have "length ?rq = B" using base(7) by simp
          then have "i = 2 * B + W" using c full b by simp
          then show False using i small by simp
        qed
        have "step env lib cfg imagePaths (WorkerSend 0) s
            = Some (s\<lparr>pool := (pool s)\<lparr>resultQueue := (resultQueue (pool s))
                  \<lparr>chBuf := ?rq @ [r]\<rparr>\<rparr>, workers := (workers s)[0 := Idle]\<rparr>)"
          using Submitting r room base(3,5) W by (simp add: Let_def)
        then show ?thesis using Submitting by fastforce
      qed
    qed
  next
    case (Collecting rs)
    with I have c: "length ?jq + length ?rq + busy (workers s) + length rs = ?n"
      by (simp add: liveInv_def)
    show ?thesis
    proof (cases "length rs < ?n")
      case False
      have "step env lib cfg imagePaths Finish s = Some (returnWith s rs None)"
        using Collecting False by simp
      moreover have "mainPc (returnWith s rs None) = Returned rs None"
        by (rule returnWith_open(1) [OF base(2)])
      ultimately show ?thesis by fastforce
    next
      case True
      show ?thesis
      proof (cases ?rq)
        case (Cons r rest)
        have "step env lib cfg imagePaths Receive s
            = Some (s\<lparr>pool := (pool s)\<lparr>resultQueue := (resultQueue (pool s))\<lparr>chBuf := rest\<rparr>\<rparr>,
                     mainPc := Collecting (rs @ [r])\<rparr>)"
          using Collecting Cons True by (simp add: Let_def)
        then show ?thesis by fastforce
      next
        case Nil
        show ?thesis
        proof (cases "\<exists>k r. k < length (workers s) \<and> workers s ! k = Holding r")
          case True
          then obtain k r where k: "k < length (workers s)" "workers s ! k = Holding r" by blast
          show ?thesis
          proof (cases "0 < B")
            case True
            have "step env lib cfg imagePaths (WorkerSend k) s
                = Some (s\<lparr>pool := (pool s)\<lparr>resultQueue := (resultQueue (pool s))
                      \<lparr>chBuf := ?rq @ [r]\<rparr>\<rparr>, workers := (workers s)[k := Idle]\<rparr>)"
              using Collecting k Nil True base(5) by (simp add: Let_def)
            then show ?thesis using Collecting by fastforce
          next
            case False
            have "step env lib cfg imagePaths (WorkerSend k) s
                = Some (s\<lparr>mainPc := Collecting (rs @ [r]), workers := (workers s)[k := Idle]\<rparr>)"
              using Collecting k Nil False base(5) \<open>length rs < ?n\<close> by (simp add: Let_def)
            then show ?thesis by fastforce
          qed
        next
          case False
          have "\<forall>w\<in>set (workers s). w = Idle"
          proof
            fix w assume w: "w \<in> set (workers s)"
            then obtain k where "k < length (workers s)" "workers s ! k = w"
              by (auto simp: in_set_conv_nth)
            with False base(8) w show "w = Idle" by (cases w) auto
          qed
          then have b: "busy (workers s) = 0" by (rule busy_all_Idle)
          have "length ?jq + length rs = length imagePaths" using c b Nil by simp
          then have "?jq \<noteq> []" using \<open>length rs < ?n\<close> by auto
          then obtain job rest where jq: "?jq = job # rest" by (cases ?jq) auto
          have "workers s ! 0 \<in> set (workers s)" using W base(3) by simp
          then have "workers s ! 0 = Idle" using \<open>\<forall>w\<in>set (workers s). w = Idle\<close> by blast
          moreover have "0 < length (workers s)" using W base(3) by simp
          ultimately obtain s' where
            "step env lib cfg imagePaths (WorkerTake 0 (ord (world s) job)) s = Some s'"
            "\<forall>e. mainPc s' \<noteq> Crashed e"
            using take [OF _ _ jq, of 0] by blast
          then show ?thesis by blast
        qed
      qed
    qed
  next
    case (Returned rs err)
    then show ?thesis using nr by simp
  next
    case (Crashed e)
    then show ?thesis using ncs by simp
  qed
qed

lemma steps_append:
  "steps env lib cfg imagePaths (as @ bs) s =
     (case steps env lib cfg imagePaths as s of
        None \<Rightarrow> None
      | Some s1 \<Rightarrow> steps env lib cfg imagePaths bs s1)"
  by (induction as arbitrary: s) (auto split: option.splits)

lemma live_returns:
  assumes W: "0 < W" and small: "length imagePaths \<le> 2 * B + W"
    and noPanic: "\<And>w i. i < length imagePaths \<Longrightarrow>
        \<exists>r w'. ProcessSingleImage env cfg (ord w (makeJob lib cfg i (imagePaths ! i))) w
                  (makeJob lib cfg i (imagePaths ! i)) = Inr (r, w')"
    and I: "liveInv lib cfg imagePaths B W s"
  shows "\<exists>more s' results. Cancel \<notin> set more \<and>
           steps env lib cfg imagePaths more s = Some s' \<and>
           mainPc s' = Returned results None \<and> length results = length imagePaths"
  using I
proof (induction "pending (length imagePaths) s" arbitrary: s rule: less_induct)
  case less
  show ?case
  proof (cases "\<exists>rs err. mainPc s = Returned rs err")
    case True
    then obtain rs err where r: "mainPc s = Returned rs err" by blast
    with less.prems have "err = None" "length rs = length imagePaths" by (simp_all add: liveInv_def)
    then have "steps env lib cfg imagePaths [] s = Some s \<and>
        mainPc s = Returned rs None \<and> length rs = length imagePaths"
      using r by simp
    then show ?thesis by (metis empty_iff empty_set)
  next
    case False
    then have nr: "\<And>rs err. mainPc s \<noteq> Returned rs err" by blast
    from live_enabled [OF less.prems W small noPanic nr]
    obtain a s1 where a: "a \<noteq> Cancel" "step env lib cfg imagePaths a s = Some s1"
        "\<forall>e. mainPc s1 \<noteq> Crashed e"
      by blast
    from step_liveInv [OF less.prems a(2) a(1)] a(3)
    have I1: "liveInv lib cfg imagePaths B W s1"
      and lt: "pending (length imagePaths) s1 < pending (length imagePaths) s"
      by blast+
    from less.hyps [OF lt I1] obtain more s' results where m: "Cancel \<notin> set more"
        "steps env lib cfg imagePaths more s1 = Some s'"
        "mainPc s' = Returned results None" "length results = length imagePaths"
      by blast
    have "Cancel \<notin> set (a # more)" using a(1) m(1) by auto
    moreover have "steps env lib cfg imagePaths (a # more) s = Some s'" using a(2) m(2) by simp
    ultimately show ?thesis using m(3,4) by blast
  qed
qed

lemma step_Crashed: "mainPc s = Crashed e \<Longrightarrow> step env lib cfg imagePaths a s = None"
  by (cases a) simp_all

text \<open>A run without cancellation keeps the count of the jobs, and each of its steps counts.\<close>

lemma steps_liveInv:
  assumes "liveInv lib cfg imagePaths B W s"
    and "steps env lib cfg imagePaths as s = Some s'"
    and "Cancel \<notin> set as" and "\<And>e. mainPc s' \<noteq> Crashed e"
  shows "liveInv lib cfg imagePaths B W s' \<and>
         length as + pending (length imagePaths) s' \<le> pending (length imagePaths) s"
  using assms(1-3)
proof (induction as arbitrary: s)
  case Nil
  then show ?case by simp
next
  case (Cons a as)
  then obtain s1 where s1: "step env lib cfg imagePaths a s = Some s1"
      "steps env lib cfg imagePaths as s1 = Some s'"
    by (auto split: option.splits)
  have nc1: "mainPc s1 \<noteq> Crashed e" for e
  proof
    assume c: "mainPc s1 = Crashed e"
    show False
    proof (cases as)
      case Nil
      then show False using s1(2) c assms(4) by simp
    next
      case (Cons b bs)
      then show False using s1(2) step_Crashed [OF c] by simp
    qed
  qed
  from Cons.prems(3) have a: "a \<noteq> Cancel" "Cancel \<notin> set as" by auto
  from step_liveInv [OF Cons.prems(1) s1(1) a(1) nc1]
  have I1: "liveInv lib cfg imagePaths B W s1"
    and lt: "pending (length imagePaths) s1 < pending (length imagePaths) s"
    by blast+
  from Cons.IH [OF I1 s1(2) a(2)] lt show ?case by simp
qed

text \<open>
  Within the capacity of the pool the call does return. For a list of at most
  \<open>2 * BufferSize + Workers\<close> paths, at least one worker, jobs that do not make
  \<^verbatim>\<open>ProcessSingleImage\<close> panic and a context that is not cancelled: whatever the goroutines
  have done so far, they have taken at most \<open>4 * length imagePaths + 1\<close> steps, and they
  can go on until \<^verbatim>\<open>ProcessImages\<close> returns one result per path and a nil error.
\<close>

lemma ProcessImages_small_batch_returns:
  assumes new: "New cfg = Inr p"
    and W: "1 \<le> CfgWorkers cfg"
    and small: "length imagePaths \<le> 2 * nat (CfgBufferSize cfg) + nat (CfgWorkers cfg)"
    and noPanic: "\<And>w i. i < length imagePaths \<Longrightarrow>
        \<exists>r w'. ProcessSingleImage env cfg (ord w (makeJob lib cfg i (imagePaths ! i))) w
                  (makeJob lib cfg i (imagePaths ! i)) = Inr (r, w')"
    and run: "ProcessImages env lib p schedule w imagePaths = Some s"
    and nocancel: "Cancel \<notin> set schedule"
    and nc: "\<And>e. mainPc s \<noteq> Crashed e"
  shows "\<exists>more s' results.
           ProcessImages env lib p (schedule @ more) w imagePaths = Some s' \<and>
           mainPc s' = Returned results None \<and> length results = length imagePaths"
    and "length schedule \<le> 4 * length imagePaths + 1"
proof -
  have cfg: "config p = cfg" by (rule New_pool(1) [OF new])
  have r: "steps env lib cfg imagePaths schedule (started p imagePaths w) = Some s"
    using run by (simp add: ProcessImages_def cfg)
  from steps_liveInv [OF liveInv_started [OF new] r nocancel nc]
  have I: "liveInv lib cfg imagePaths (nat (CfgBufferSize cfg)) (nat (CfgWorkers cfg)) s"
    and l: "length schedule + pending (length imagePaths) s
              \<le> pending (length imagePaths) (started p imagePaths w)"
    by blast+
  show "length schedule \<le> 4 * length imagePaths + 1"
    using l pending_started [OF new, of imagePaths w] by linarith
  have W': "0 < nat (CfgWorkers cfg)" using W by simp
  from live_returns [OF W' small noPanic I]
  obtain more s' results where m: "steps env lib cfg imagePaths more s = Some s'"
      "mainPc s' = Returned results None" "length results = length imagePaths"
    by blast
  have "ProcessImages env lib p (schedule @ more) w imagePaths = Some s'"
    using r m(1) by (simp add: ProcessImages_def cfg steps_append)
  then show "\<exists>more s' results.
           ProcessImages env lib p (schedule @ more) w imagePaths = Some s' \<and>
           mainPc s' = Returned results None \<and> length results = length imagePaths"
    using m(2,3) by blast
qed

text \<open>
  The example with three paths, which is as many as one worker and queues of capacity 1
  can take: from the state where both queues are full and the worker holds a result, the
  run goes on to return three results.
\<close>

lemma ProcessImages_small_batch_returns_example:
  "\<exists>more s results.
     ProcessImages
        \<lparr>Stat = (\<lambda>w p. Inr 100),
         loadImage = (\<lambda>w p. Inr (\<lparr>Bounds = \<lparr>MinX = 0, MinY = 0, MaxX = 1, MaxY = 1\<rparr>,
                                    At = (\<lambda>x y. (10, 20, 30, 255))\<rparr>, ''png'')),
         saveImage = (\<lambda>w img p f q. (None, p # w))\<rparr>
        \<lparr>pathDir = (\<lambda>p. ''.''), pathBase = (\<lambda>p. p), pathExt = (\<lambda>p. []),
         pathJoin = (\<lambda>d f. d @ ''/'' @ f)\<rparr>
        \<lparr>config = \<lparr>CfgOutputDir = ''out'', CfgFilter = ''grayscale'', CfgWorkers = 1,
                      CfgQuality = 95, CfgBlurRadius = 2, CfgBrightness = 6 / 5,
                      CfgContrast = 11 / 10, CfgMaxFileSize = 1000, CfgBufferSize = 1\<rparr>,
           workerPool = \<lparr>workerCount = 1, jobQueue = makeChan 1, resultQueue = makeChan 1,
                          rowJobQueue = makeChan 10, rowResults = makeChan 10,
                          quit = makeChan 0, wg = 0\<rparr>\<rparr>
        ([Submit, WorkerTake 0 [0], WorkerSend 0, Submit, WorkerTake 0 [0], Submit] @ more) []
        [''a.png'', ''b.png'', ''c.png''] = Some s \<and>
     mainPc s = Returned results None \<and> length results = 3"
proof -
  let ?cfg = "\<lparr>CfgOutputDir = ''out'', CfgFilter = ''grayscale'', CfgWorkers = 1, CfgQuality = 95,
        CfgBlurRadius = 2, CfgBrightness = 6 / 5, CfgContrast = 11 / 10,
        CfgMaxFileSize = 1000, CfgBufferSize = 1\<rparr>"
  let ?p = "\<lparr>config = ?cfg,
           workerPool = \<lparr>workerCount = 1, jobQueue = makeChan 1, resultQueue = makeChan 1,
                          rowJobQueue = makeChan 10, rowResults = makeChan 10,
                          quit = makeChan 0, wg = 0\<rparr>\<rparr>"
  let ?env = "\<lparr>Stat = (\<lambda>w p. Inr 100),
         loadImage = (\<lambda>w p. Inr (\<lparr>Bounds = \<lparr>MinX = 0, MinY = 0, MaxX = 1, MaxY = 1\<rparr>,
                                    At = (\<lambda>x y. (10, 20, 30, 255))\<rparr>, ''png'')),
         saveImage = (\<lambda>w img p f q. (None, p # w))\<rparr> :: string list Env"
  let ?lib = "\<lparr>pathDir = (\<lambda>p. ''.''), pathBase = (\<lambda>p. p), pathExt = (\<lambda>p. []),
         pathJoin = (\<lambda>d f. d @ ''/'' @ f)\<rparr>"
  let ?paths = "[''a.png'', ''b.png'', ''c.png'']"
  let ?sched = "[Submit, WorkerTake 0 [0], WorkerSend 0, Submit, WorkerTake 0 [0], Submit]"
  have W: "1 \<le> CfgWorkers ?cfg" by simp
  have small: "length ?paths \<le> 2 * nat (CfgBufferSize ?cfg) + nat (CfgWorkers ?cfg)" by simp
  have noPanic: "\<exists>r w'. ProcessSingleImage ?env ?cfg ((\<lambda>w job. [0]) w (makeJob ?lib ?cfg i (?paths ! i))) w
                  (makeJob ?lib ?cfg i (?paths ! i)) = Inr (r, w')"
    if "i < length ?paths" for w i
    by (simp add: gray_ProcessSingleImage makeJob_def)
  have "\<exists>s. ProcessImages ?env ?lib ?p ?sched [] ?paths = Some s \<and> mainPc s = Collecting []"
    by (simp add: ProcessImages_def started_def afterSubmit_def makeChan_def Let_def
        workerRuns_def makeJob_def gray_ProcessSingleImage)
  then obtain s where s: "ProcessImages ?env ?lib ?p ?sched [] ?paths = Some s"
      "mainPc s = Collecting []"
    by blast
  have nc: "mainPc s \<noteq> Crashed e" for e using s(2) by simp
  have ncl: "Cancel \<notin> set ?sched" by simp
  from ProcessImages_small_batch_returns(1) [OF example_New W small noPanic s(1) ncl nc]
  obtain more s' results where
    "ProcessImages ?env ?lib ?p (?sched @ more) [] ?paths = Some s'"
    "mainPc s' = Returned results None" "length results = length ?paths"
    by blast
  then have "ProcessImages ?env ?lib ?p (?sched @ more) [] ?paths = Some s' \<and>
     mainPc s' = Returned results None \<and> length results = 3"
    by simp
  then show ?thesis by blast
qed

section \<open>A batch larger than the queues\<close>

lemma submitInv_started:
  assumes new: "New cfg = Inr p" and n: "0 < length imagePaths"
  shows "submitInv (nat (CfgBufferSize cfg)) (nat (CfgWorkers cfg)) (started p imagePaths w)"
  using New_pool(2-4) [OF new] n
  by (simp add: submitInv_def started_def afterSubmit_def makeChan_def)

lemma step_submitInv:
  assumes big: "2 * B + W < length imagePaths"
    and I: "submitInv B W s"
    and st: "step env lib cfg imagePaths a s = Some s'"
  shows "submitInv B W s'"
proof -
  from I have base: "length (workers s) = W" "chCap (jobQueue (pool s)) = B"
      "chCap (resultQueue (pool s)) = B" "length (chBuf (jobQueue (pool s))) \<le> B"
      "length (chBuf (resultQueue (pool s))) \<le> B"
    by (simp_all add: submitInv_def)
  from st have nc: "\<And>e. mainPc s \<noteq> Crashed e"
    by (cases a) (auto split: mainState.splits)
  with I obtain i where i: "mainPc s = Submitting i"
      "i \<le> length (chBuf (jobQueue (pool s))) + length (chBuf (resultQueue (pool s)))
            + busy (workers s)"
    by (auto simp: submitInv_def split: mainState.splits)
  have bw: "busy (workers s) \<le> W" using busy_le [of "workers s"] base(1) by simp
  show ?thesis
  proof (cases a)
    case Cancel
    then show ?thesis using st I i by (auto simp: submitInv_def)
  next
    case Submit
    from st Submit i have room: "length (chBuf (jobQueue (pool s))) < B"
      and s': "s' = s\<lparr>pool := (pool s)\<lparr>jobQueue := (jobQueue (pool s))
                \<lparr>chBuf := chBuf (jobQueue (pool s)) @ [makeJob lib cfg i (imagePaths ! i)]\<rparr>\<rparr>,
              mainPc := afterSubmit imagePaths (i + 1)\<rparr>"
      using base(2) by (auto simp: Let_def split: if_splits)
    have "i + 1 < length imagePaths" using i(2) room base(5) bw big by linarith
    then have pc: "mainPc s' = Submitting (i + 1)" by (simp add: s' afterSubmit_def)
    show ?thesis
      unfolding submitInv_def pc using base room i(2) by (simp add: s')
  next
    case Receive
    then show ?thesis using st i by simp
  next
    case ObserveDone
    then show ?thesis using st i by simp
  next
    case Finish
    then show ?thesis using st i by simp
  next
    case (WorkerTake k order)
    from st [unfolded WorkerTake] show ?thesis
    proof (cases rule: step_WorkerTake_cases)
      case (queue job rest)
      let ?s0 = "s\<lparr>pool := (pool s)\<lparr>jobQueue := (jobQueue (pool s))\<lparr>chBuf := rest\<rparr>\<rparr>\<rparr>"
      have k: "k < length (workers ?s0)" "workers ?s0 ! k = Idle" using queue(2,3) by simp_all
      from workerRuns_cases [OF k, of env cfg order job]
      show ?thesis
      proof (elim disjE exE conjE)
        fix e assume "workerRuns env cfg order k job ?s0 = ?s0\<lparr>mainPc := Crashed e\<rparr>"
        then show ?thesis using base queue(1) by (simp add: queue(4) submitInv_def)
      next
        fix result w'
        assume e: "workerRuns env cfg order k job ?s0
            = ?s0\<lparr>workers := (workers ?s0)[k := Holding result], world := w'\<rparr>"
        have s'e: "s' = ?s0\<lparr>workers := (workers ?s0)[k := Holding result], world := w'\<rparr>"
          using queue(4) e by simp
        have "busy ((workers s)[k := Holding result]) = busy (workers s) + 1"
          using busy_update [OF queue(2), of "Holding result"] queue(3) by simp
        then show ?thesis
          using base queue(1) i by (simp add: s'e submitInv_def)
      qed
    next
      case (handover j)
      let ?job = "makeJob lib cfg j (imagePaths ! j)"
      let ?s0 = "s\<lparr>mainPc := afterSubmit imagePaths (j + 1)\<rparr>"
      have j: "j = i" using handover(3) i(1) by simp
      have k: "k < length (workers ?s0)" "workers ?s0 ! k = Idle" using handover(5,6) by simp_all
      from workerRuns_cases [OF k, of env cfg order ?job]
      show ?thesis
      proof (elim disjE exE conjE)
        fix e assume "workerRuns env cfg order k ?job ?s0 = ?s0\<lparr>mainPc := Crashed e\<rparr>"
        then show ?thesis using base by (simp add: handover(7) submitInv_def)
      next
        fix result w'
        assume e: "workerRuns env cfg order k ?job ?s0
            = ?s0\<lparr>workers := (workers ?s0)[k := Holding result], world := w'\<rparr>"
        have b1: "busy ((workers s)[k := Holding result]) = busy (workers s) + 1"
          using busy_update [OF handover(5), of "Holding result"] handover(6) by simp
        have "busy ((workers s)[k := Holding result]) \<le> W"
          using busy_le [of "(workers s)[k := Holding result]"] base(1) by simp
        then have lt: "i + 1 < length imagePaths" using i(2) b1 base(4,5) big by linarith
        have s'e: "s' = ?s0\<lparr>workers := (workers ?s0)[k := Holding result], world := w'\<rparr>"
          using handover(7) e by simp
        have pc: "mainPc s' = Submitting (i + 1)"
          using lt by (simp add: s'e j afterSubmit_def)
        show ?thesis
          unfolding submitInv_def pc using base i(2) b1 by (simp add: s'e)
      qed
    qed
  next
    case (WorkerSend k)
    from st [unfolded WorkerSend] show ?thesis
    proof (cases rule: step_WorkerSend_cases)
      case (queue result)
      have "busy ((workers s)[k := Idle]) + 1 = busy (workers s)"
        using busy_update [OF queue(1), of Idle] queue(2) by simp
      then show ?thesis
        using base queue(3) i by (simp add: queue(4) submitInv_def)
    next
      case (handover result rs)
      then show ?thesis using i(1) by simp
    qed
  next
    case (WorkerStop k)
    from st WorkerStop i have k: "k < length (workers s)"
      and s': "s' = s\<lparr>workers := (workers s)[k := Exited]\<rparr>"
      by (auto split: if_splits)
    have "busy (workers s) \<le> busy ((workers s)[k := Exited])"
      using busy_update [OF k, of Exited] by (simp split: if_splits)
    then show ?thesis using base i by (simp add: s' submitInv_def)
  qed
qed

lemma steps_submitInv:
  assumes "2 * B + W < length imagePaths" "submitInv B W s"
    "steps env lib cfg imagePaths as s = Some s'"
  shows "submitInv B W s'"
  using assms(2,3)
proof (induction as arbitrary: s)
  case Nil
  then show ?case by simp
next
  case (Cons a as)
  then obtain s1 where s1: "step env lib cfg imagePaths a s = Some s1"
      "steps env lib cfg imagePaths as s1 = Some s'"
    by (auto split: option.splits)
  from step_submitInv [OF assms(1) Cons.prems(1) s1(1)] have "submitInv B W s1" .
  then show ?case using s1(2) by (rule Cons.IH)
qed

text \<open>
  One worker, queues of capacity 1 and four paths: after three jobs the job queue is full,
  the result queue is full and the worker holds a result.
\<close>

lemma example_blocked:
  "\<exists>s. ProcessImages
        \<lparr>Stat = (\<lambda>w p. Inr 100),
         loadImage = (\<lambda>w p. Inr (\<lparr>Bounds = \<lparr>MinX = 0, MinY = 0, MaxX = 1, MaxY = 1\<rparr>,
                                    At = (\<lambda>x y. (10, 20, 30, 255))\<rparr>, ''png'')),
         saveImage = (\<lambda>w img p f q. (None, p # w))\<rparr>
        \<lparr>pathDir = (\<lambda>p. ''.''), pathBase = (\<lambda>p. p), pathExt = (\<lambda>p. []),
         pathJoin = (\<lambda>d f. d @ ''/'' @ f)\<rparr>
        \<lparr>config = \<lparr>CfgOutputDir = ''out'', CfgFilter = ''grayscale'', CfgWorkers = 1,
                      CfgQuality = 95, CfgBlurRadius = 2, CfgBrightness = 6 / 5,
                      CfgContrast = 11 / 10, CfgMaxFileSize = 1000, CfgBufferSize = 1\<rparr>,
           workerPool = \<lparr>workerCount = 1, jobQueue = makeChan 1, resultQueue = makeChan 1,
                          rowJobQueue = makeChan 10, rowResults = makeChan 10,
                          quit = makeChan 0, wg = 0\<rparr>\<rparr>
        [Submit, WorkerTake 0 [0], WorkerSend 0, Submit, WorkerTake 0 [0], Submit] []
        [''a.png'', ''b.png'', ''c.png'', ''d.png''] = Some s \<and>
      mainPc s = Submitting 3 \<and> \<not> cancelled s \<and>
      length (chBuf (jobQueue (pool s))) = 1 \<and> chCap (jobQueue (pool s)) = 1 \<and>
      length (chBuf (resultQueue (pool s))) = 1 \<and> chCap (resultQueue (pool s)) = 1 \<and>
      (\<exists>r. workers s = [Holding r]) \<and>
      world s = [''out/b.png_grayscale'', ''out/a.png_grayscale'']"
  by (simp add: ProcessImages_def started_def afterSubmit_def makeChan_def Let_def
      workerRuns_def makeJob_def gray_ProcessSingleImage generateOutputPath_def TrimSuffix_def)

text \<open>
  A state in which the main goroutine waits to submit, the job queue and the result queue
  are full and every worker holds a result: until the context is cancelled no goroutine
  can take a step.
\<close>

lemma blocked_state:
  assumes "mainPc s = Submitting i" "\<not> cancelled s"
    and "length (chBuf (jobQueue (pool s))) = chCap (jobQueue (pool s))"
    and "length (chBuf (resultQueue (pool s))) = chCap (resultQueue (pool s))"
    and "0 < chCap (resultQueue (pool s))"
    and "\<forall>k < length (workers s). workers s ! k \<noteq> Idle"
    and "a \<noteq> Cancel"
  shows "step env lib cfg imagePaths a s = None"
  using assms by (cases a) (auto simp: Let_def split: workerState.splits list.splits)

lemma example_stuck:
  "\<exists>s. ProcessImages
        \<lparr>Stat = (\<lambda>w p. Inr 100),
         loadImage = (\<lambda>w p. Inr (\<lparr>Bounds = \<lparr>MinX = 0, MinY = 0, MaxX = 1, MaxY = 1\<rparr>,
                                    At = (\<lambda>x y. (10, 20, 30, 255))\<rparr>, ''png'')),
         saveImage = (\<lambda>w img p f q. (None, p # w))\<rparr>
        \<lparr>pathDir = (\<lambda>p. ''.''), pathBase = (\<lambda>p. p), pathExt = (\<lambda>p. []),
         pathJoin = (\<lambda>d f. d @ ''/'' @ f)\<rparr>
        \<lparr>config = \<lparr>CfgOutputDir = ''out'', CfgFilter = ''grayscale'', CfgWorkers = 1,
                      CfgQuality = 95, CfgBlurRadius = 2, CfgBrightness = 6 / 5,
                      CfgContrast = 11 / 10, CfgMaxFileSize = 1000, CfgBufferSize = 1\<rparr>,
           workerPool = \<lparr>workerCount = 1, jobQueue = makeChan 1, resultQueue = makeChan 1,
                          rowJobQueue = makeChan 10, rowResults = makeChan 10,
                          quit = makeChan 0, wg = 0\<rparr>\<rparr>
        [Submit, WorkerTake 0 [0], WorkerSend 0, Submit, WorkerTake 0 [0], Submit] []
        [''a.png'', ''b.png'', ''c.png'', ''d.png''] = Some s \<and>
      mainPc s = Submitting 3 \<and>
      (\<forall>a env lib cfg. a \<noteq> Cancel \<longrightarrow>
         step env lib cfg [''a.png'', ''b.png'', ''c.png'', ''d.png''] a s = (None :: string list run option))"
proof -
  from example_blocked obtain s where s: "ProcessImages
        \<lparr>Stat = (\<lambda>w p. Inr 100),
         loadImage = (\<lambda>w p. Inr (\<lparr>Bounds = \<lparr>MinX = 0, MinY = 0, MaxX = 1, MaxY = 1\<rparr>,
                                    At = (\<lambda>x y. (10, 20, 30, 255))\<rparr>, ''png'')),
         saveImage = (\<lambda>w img p f q. (None, p # w))\<rparr>
        \<lparr>pathDir = (\<lambda>p. ''.''), pathBase = (\<lambda>p. p), pathExt = (\<lambda>p. []),
         pathJoin = (\<lambda>d f. d @ ''/'' @ f)\<rparr>
        \<lparr>config = \<lparr>CfgOutputDir = ''out'', CfgFilter = ''grayscale'', CfgWorkers = 1,
                      CfgQuality = 95, CfgBlurRadius = 2, CfgBrightness = 6 / 5,
                      CfgContrast = 11 / 10, CfgMaxFileSize = 1000, CfgBufferSize = 1\<rparr>,
           workerPool = \<lparr>workerCount = 1, jobQueue = makeChan 1, resultQueue = makeChan 1,
                          rowJobQueue = makeChan 10, rowResults = makeChan 10,
                          quit = makeChan 0, wg = 0\<rparr>\<rparr>
        [Submit, WorkerTake 0 [0], WorkerSend 0, Submit, WorkerTake 0 [0], Submit] []
        [''a.png'', ''b.png'', ''c.png'', ''d.png''] = Some s"
      "mainPc s = Submitting 3" "\<not> cancelled s"
      "length (chBuf (jobQueue (pool s))) = 1" "chCap (jobQueue (pool s)) = 1"
      "length (chBuf (resultQueue (pool s))) = 1" "chCap (resultQueue (pool s)) = 1"
      "\<exists>r. workers s = [Holding r]"
    by blast
  have w: "\<forall>k < length (workers s). workers s ! k \<noteq> Idle" using s(8) by auto
  have "step env lib cfg [''a.png'', ''b.png'', ''c.png'', ''d.png''] a s = None"
    if "a \<noteq> Cancel" for a and env :: "string list Env" and lib cfg
    by (rule blocked_state [OF s(2,3) _ _ _ w that]) (simp_all add: s)
  then show ?thesis using s(1,2) by blast
qed

text \<open>
  C2. \<^verbatim>\<open>ProcessImages\<close> does not return one result per path for every list of paths: on a
  list of more than \<open>2 * BufferSize + Workers\<close> paths it does not return at all. It submits
  every job before it receives the first result; the job queue and the result queue hold
  \<open>BufferSize\<close> values each and every worker holds one more, so whatever the schedule of the
  goroutines, and also after the context is cancelled, the main goroutine is still inside
  \<^verbatim>\<open>SubmitJob\<close> with at most \<open>2 * BufferSize + Workers\<close> jobs handed over, unless the program
  has crashed. It never reaches the collection loop, and the deferred \<^verbatim>\<open>Stop\<close>, the only
  place that closes \<^verbatim>\<open>quit\<close>, never runs. The bound is exact: up to \<open>2 * BufferSize + Workers\<close>
  paths an uncancelled run can always go on until the call returns one result per path
  (\<open>ProcessImages_small_batch_returns\<close>), and what a call that returns gives back is as
  described (\<open>ProcessImages_returned\<close>).
\<close>

theorem ProcessImages_large_batch_never_returns:
  assumes "New cfg = Inr p"
    and "2 * nat (CfgBufferSize cfg) + nat (CfgWorkers cfg) < length imagePaths"
    and "ProcessImages env lib p schedule w imagePaths = Some s"
  shows "(\<exists>i. mainPc s = Submitting i \<and> i \<le> 2 * nat (CfgBufferSize cfg) + nat (CfgWorkers cfg)) \<or>
         (\<exists>e. mainPc s = Crashed e)"
proof -
  let ?B = "nat (CfgBufferSize cfg)" and ?W = "nat (CfgWorkers cfg)"
  have n: "0 < length imagePaths" using assms(2) by linarith
  have run: "steps env lib (config p) imagePaths schedule (started p imagePaths w) = Some s"
    using assms(3) by (simp add: ProcessImages_def)
  from steps_submitInv [OF assms(2) submitInv_started [OF assms(1) n] run]
  have I: "submitInv ?B ?W s" .
  show ?thesis
  proof (cases "mainPc s")
    case (Submitting i)
    with I have "i \<le> length (chBuf (jobQueue (pool s))) + length (chBuf (resultQueue (pool s)))
            + busy (workers s)"
      and "length (workers s) = ?W" "length (chBuf (jobQueue (pool s))) \<le> ?B"
      "length (chBuf (resultQueue (pool s))) \<le> ?B"
      by (simp_all add: submitInv_def)
    moreover have "busy (workers s) \<le> length (workers s)" by (rule busy_le)
    ultimately have "i \<le> 2 * ?B + ?W" by linarith
    then show ?thesis using Submitting by simp
  next
    case (Collecting rs)
    with I show ?thesis by (simp add: submitInv_def)
  next
    case (Returned rs err)
    with I show ?thesis by (simp add: submitInv_def)
  next
    case (Crashed e)
    then show ?thesis by simp
  qed
qed

theorem ProcessImages_large_batch_never_returns_witness:
  "New \<lparr>CfgOutputDir = ''out'', CfgFilter = ''grayscale'', CfgWorkers = 1, CfgQuality = 95,
        CfgBlurRadius = 2, CfgBrightness = 6 / 5, CfgContrast = 11 / 10,
        CfgMaxFileSize = 1000, CfgBufferSize = 1\<rparr>
   = Inr \<lparr>config = \<lparr>CfgOutputDir = ''out'', CfgFilter = ''grayscale'', CfgWorkers = 1,
                      CfgQuality = 95, CfgBlurRadius = 2, CfgBrightness = 6 / 5,
                      CfgContrast = 11 / 10, CfgMaxFileSize = 1000, CfgBufferSize = 1\<rparr>,
           workerPool = \<lparr>workerCount = 1, jobQueue = makeChan 1, resultQueue = makeChan 1,
                          rowJobQueue = makeChan 10, rowResults = makeChan 10,
                          quit = makeChan 0, wg = 0\<rparr>\<rparr> \<and>
   2 * nat 1 + nat 1 < length [''a.png'', ''b.png'', ''c.png'', ''d.png''] \<and>
   (\<exists>s. ProcessImages
        \<lparr>Stat = (\<lambda>w p. Inr 100),
         loadImage = (\<lambda>w p. Inr (\<lparr>Bounds = \<lparr>MinX = 0, MinY = 0, MaxX = 1, MaxY = 1\<rparr>,
                                    At = (\<lambda>x y. (10, 20, 30, 255))\<rparr>, ''png'')),
         saveImage = (\<lambda>w img p f q. (None, p # w))\<rparr>
        \<lparr>pathDir = (\<lambda>p. ''.''), pathBase = (\<lambda>p. p), pathExt = (\<lambda>p. []),
         pathJoin = (\<lambda>d f. d @ ''/'' @ f)\<rparr>
        \<lparr>config = \<lparr>CfgOutputDir = ''out'', CfgFilter = ''grayscale'', CfgWorkers = 1,
                      CfgQuality = 95, CfgBlurRadius = 2, CfgBrightness = 6 / 5,
                      CfgContrast = 11 / 10, CfgMaxFileSize = 1000, CfgBufferSize = 1\<rparr>,
           workerPool = \<lparr>workerCount = 1, jobQueue = makeChan 1, resultQueue = makeChan 1,
                          rowJobQueue = makeChan 10, rowResults = makeChan 10,
                          quit = makeChan 0, wg = 0\<rparr>\<rparr>
        [Submit, WorkerTake 0 [0], WorkerSend 0, Submit, WorkerTake 0 [0], Submit, Cancel,
         WorkerStop 0] []
        [''a.png'', ''b.png'', ''c.png'', ''d.png''] = Some s \<and>
      cancelled s \<and>
      ((\<exists>i. mainPc s = Submitting i \<and> i \<le> 3) \<or> (\<exists>e. mainPc s = Crashed e)))"
proof -
  let ?cfg = "\<lparr>CfgOutputDir = ''out'', CfgFilter = ''grayscale'', CfgWorkers = 1, CfgQuality = 95,
        CfgBlurRadius = 2, CfgBrightness = 6 / 5, CfgContrast = 11 / 10,
        CfgMaxFileSize = 1000, CfgBufferSize = 1\<rparr>"
  let ?p = "\<lparr>config = ?cfg,
           workerPool = \<lparr>workerCount = 1, jobQueue = makeChan 1, resultQueue = makeChan 1,
                          rowJobQueue = makeChan 10, rowResults = makeChan 10,
                          quit = makeChan 0, wg = 0\<rparr>\<rparr>"
  let ?env = "\<lparr>Stat = (\<lambda>w p. Inr 100),
         loadImage = (\<lambda>w p. Inr (\<lparr>Bounds = \<lparr>MinX = 0, MinY = 0, MaxX = 1, MaxY = 1\<rparr>,
                                    At = (\<lambda>x y. (10, 20, 30, 255))\<rparr>, ''png'')),
         saveImage = (\<lambda>w img p f q. (None, p # w))\<rparr> :: string list Env"
  let ?lib = "\<lparr>pathDir = (\<lambda>p. ''.''), pathBase = (\<lambda>p. p), pathExt = (\<lambda>p. []),
         pathJoin = (\<lambda>d f. d @ ''/'' @ f)\<rparr>"
  let ?paths = "[''a.png'', ''b.png'', ''c.png'', ''d.png'']"
  let ?sched = "[Submit, WorkerTake 0 [0], WorkerSend 0, Submit, WorkerTake 0 [0], Submit, Cancel,
         WorkerStop 0]"
  have big: "2 * nat (CfgBufferSize ?cfg) + nat (CfgWorkers ?cfg) < length ?paths" by simp
  have "\<exists>s. ProcessImages ?env ?lib ?p ?sched [] ?paths = Some s \<and> cancelled s"
    by (simp add: ProcessImages_def started_def afterSubmit_def makeChan_def Let_def
        workerRuns_def makeJob_def gray_ProcessSingleImage)
  then obtain s where s: "ProcessImages ?env ?lib ?p ?sched [] ?paths = Some s" "cancelled s"
    by blast
  from ProcessImages_large_batch_never_returns [OF example_New big s(1)]
  have "(\<exists>i. mainPc s = Submitting i \<and> i \<le> 3) \<or> (\<exists>e. mainPc s = Crashed e)" by simp
  then show ?thesis using example_New s by auto
qed

section \<open>Blur\<close>

lemma fdiv_trunc:
  assumes c: "0 < c" "c < 2 ^ 46" and S: "S \<le> 255 * c"
  shows "truncate_float64 (fdiv (of_nat S) (of_nat c)) = int (S div c)"
proof -
  define q where "q = S div c"
  define m where "m = S mod c"
  define x :: rat where "x = of_nat S / of_nat c"
  have Sq: "S = q * c + m" and mc: "m < c" using c(1) by (simp_all add: q_def m_def)
  have q255: "q \<le> 255" using S c(1) unfolding q_def
    by (metis div_le_mono nonzero_mult_div_cancel_right less_numeral_extra(3))
  have cpos: "(0::rat) < of_nat c" using c(1) by simp
  have x0: "0 \<le> x" by (simp add: x_def)
  have lo: "of_nat q \<le> x"
  proof -
    have "(of_nat q :: rat) * of_nat c \<le> of_nat S"
      unfolding Sq by (simp del: of_nat_mult of_nat_add add: of_nat_mult [symmetric] of_nat_add [symmetric])
    then show ?thesis unfolding x_def using cpos by (simp add: pos_le_divide_eq)
  qed
  have hi: "x \<le> of_nat q + 1 - 1 / of_nat c"
  proof -
    have "S + 1 \<le> (q + 1) * c" using Sq mc by simp
    then have "(of_nat (S + 1) :: rat) \<le> of_nat ((q + 1) * c)" by (simp only: of_nat_le_iff)
    then have "(of_nat S :: rat) + 1 \<le> (of_nat q + 1) * of_nat c" by (simp add: algebra_simps)
    then have "(of_nat S :: rat) \<le> (of_nat q + 1 - 1 / of_nat c) * of_nat c"
      using cpos by (simp add: algebra_simps)
    then show ?thesis unfolding x_def using cpos by (simp add: pos_divide_le_eq)
  qed
  have cinv: "1 / 70368744177664 < 1 / (of_nat c :: rat)"
  proof -
    have "(of_nat c :: rat) < of_nat (2 ^ 46)" using c(2) by (simp only: of_nat_less_iff)
    then have "(of_nat c :: rat) < 70368744177664" by simp
    then show ?thesis using cpos by (simp add: divide_strict_left_mono)
  qed
  have Q: "(of_nat q :: rat) \<le> 255" using q255 by (metis of_nat_le_iff of_nat_numeral)
  have x256: "x < 256" using hi Q cinv by linarith
  have fl_lo: "of_nat q \<le> fl64 x"
  proof (cases "x = 0")
    case True
    then show ?thesis using lo by simp
  next
    case False
    then have "0 < x" using x0 by simp
    moreover have "x < 2 ^ 53" using x256 by simp
    moreover have "of_int (int q) \<le> x" using lo by simp
    ultimately have "of_int (int q) \<le> fl64 x" by (rule fl64_ge_int)
    then show ?thesis by simp
  qed
  have "\<bar>fl64 x - x\<bar> \<le> 1 / 70368744177664" using x0 x256 by (rule fl64_abs_err_num)
  then have fl_hi: "fl64 x < of_nat q + 1" using hi cinv by linarith
  have "\<lfloor>fl64 x\<rfloor> = int q"
    using fl_lo fl_hi by (intro floor_unique) simp_all
  moreover have "0 \<le> fl64 x" using x0 by (rule fl64_nonneg)
  ultimately show ?thesis
    by (simp add: truncate_float64_def fdiv_def x_def q_def)
qed

lemma fadd_of_nat:
  assumes "a + b < 2 ^ 53" "unat p \<le> b"
  shows "fadd (of_nat a) (float64_of_uint8 p) = of_nat (a + unat p)"
proof -
  have "a + unat p < 2 ^ 53" using assms by simp
  then have "fl64 (of_nat (a + unat p)) = of_nat (a + unat p)" by (rule fl64_of_nat)
  then show ?thesis by (simp add: fadd_def float64_of_uint8_def)
qed

lemma blurSum_exact:
  assumes "\<forall>idx\<in>set idxs. 0 \<le> idx \<and> nat idx + 3 < length src"
    "r0 + 255 * length idxs < 2 ^ 53" "g0 + 255 * length idxs < 2 ^ 53"
    "b0 + 255 * length idxs < 2 ^ 53" "a0 + 255 * length idxs < 2 ^ 53"
  shows "blurSum src idxs (of_nat r0, of_nat g0, of_nat b0, of_nat a0, n0) =
     Inr (of_nat (r0 + (\<Sum>idx\<leftarrow>idxs. unat (src ! nat idx))),
          of_nat (g0 + (\<Sum>idx\<leftarrow>idxs. unat (src ! (nat idx + 1)))),
          of_nat (b0 + (\<Sum>idx\<leftarrow>idxs. unat (src ! (nat idx + 2)))),
          of_nat (a0 + (\<Sum>idx\<leftarrow>idxs. unat (src ! (nat idx + 3)))),
          n0 + int (length idxs))"
  using assms
proof (induction idxs arbitrary: r0 g0 b0 a0 n0)
  case Nil
  then show ?case by simp
next
  case (Cons idx idxs)
  define i where "i = nat idx"
  have i: "0 \<le> idx" "i + 3 < length src" using Cons.prems(1) by (simp_all add: i_def)
  have px: "pixelAtI src idx = Some (src ! i, src ! (i + 1), src ! (i + 2), src ! (i + 3))"
    using i by (simp add: pixelAtI_def pixelAt_def i_def)
  have u: "unat (p :: uint8) \<le> 255" for p by (rule unat_le_255)
  have f: "fadd (of_nat r0) (float64_of_uint8 (src ! i)) = of_nat (r0 + unat (src ! i))"
    "fadd (of_nat g0) (float64_of_uint8 (src ! (i + 1))) = of_nat (g0 + unat (src ! (i + 1)))"
    "fadd (of_nat b0) (float64_of_uint8 (src ! (i + 2))) = of_nat (b0 + unat (src ! (i + 2)))"
    "fadd (of_nat a0) (float64_of_uint8 (src ! (i + 3))) = of_nat (a0 + unat (src ! (i + 3)))"
    by (rule fadd_of_nat [where b = 255], use Cons.prems(2-5) in simp, rule u)+
  have b: "r0 + unat (src ! i) + 255 * length idxs < 2 ^ 53"
    "g0 + unat (src ! (i + 1)) + 255 * length idxs < 2 ^ 53"
    "b0 + unat (src ! (i + 2)) + 255 * length idxs < 2 ^ 53"
    "a0 + unat (src ! (i + 3)) + 255 * length idxs < 2 ^ 53"
    using Cons.prems(2-5) u [of "src ! i"] u [of "src ! (i + 1)"] u [of "src ! (i + 2)"]
      u [of "src ! (i + 3)"] by simp_all
  have rest: "\<forall>idx\<in>set idxs. 0 \<le> idx \<and> nat idx + 3 < length src" using Cons.prems(1) by simp
  have step: "blurSum src (idx # idxs) (of_nat r0, of_nat g0, of_nat b0, of_nat a0, n0) =
      blurSum src idxs (of_nat (r0 + unat (src ! i)), of_nat (g0 + unat (src ! (i + 1))),
        of_nat (b0 + unat (src ! (i + 2))), of_nat (a0 + unat (src ! (i + 3))), n0 + 1)"
    by (simp only: blurSum.simps px option.case prod.case f)
  show ?case
    unfolding step Cons.IH [OF rest b, of "n0 + 1"]
    by (simp add: i_def add.assoc)
qed

lemma concat_if_singleton:
  "concat (map (\<lambda>a. if P a then [f a] else []) xs) = map f (filter P xs)"
  by (induction xs) simp_all

lemma blurWindow_cells:
  "blurWindow width height radius x y
     = map (\<lambda>(nx, ny). wrap64 ((ny * width + nx) * 4)) (blurCells width height radius x y)"
  by (simp add: blurWindow_def blurCells_def map_concat comp_def concat_if_singleton)

lemma comprehension_product:
  "concat (map (\<lambda>dy. concat (map (\<lambda>dx. if R (h dx dy) then [h dx dy] else []) B)) A)
     = filter R (map (\<lambda>(dy, dx). h dx dy) (List.product A B))"
proof (induction A)
  case Nil
  then show ?case by simp
next
  case (Cons a A)
  have "concat (map (\<lambda>dx. if R (h dx a) then [h dx a] else []) B)
      = filter R (map (\<lambda>dx. h dx a) B)"
    by (induction B) simp_all
  then show ?case using Cons by (simp add: comp_def)
qed

lemma blurCells_product:
  "blurCells width height radius x y =
     filter (\<lambda>(nx, ny). nx \<ge> 0 \<and> nx < width \<and> ny \<ge> 0 \<and> ny < height)
       (map (\<lambda>(dy, dx). (x + dx, y + dy)) (List.product [- radius..radius] [- radius..radius]))"
  using comprehension_product
    [of "\<lambda>(nx, ny). nx \<ge> 0 \<and> nx < width \<and> ny \<ge> 0 \<and> ny < height"
        "\<lambda>dx dy. (x + dx, y + dy)" "[- radius..radius]" "[- radius..radius]"]
  by (simp add: blurCells_def)

lemma blurCells_distinct: "distinct (blurCells width height radius x y)"
  unfolding blurCells_product
  by (intro distinct_filter) (auto simp: distinct_map distinct_product inj_on_def)

lemma blurCells_inside:
  assumes "(nx, ny) \<in> set (blurCells width height radius x y)"
  shows "0 \<le> nx" "nx < width" "0 \<le> ny" "ny < height"
  using assms by (auto simp: blurCells_product)

lemma blurCells_centre:
  assumes "0 \<le> x" "x < width" "0 \<le> y" "y < height" "0 \<le> radius"
  shows "(x, y) \<in> set (blurCells width height radius x y)"
  using assms by (auto simp: blurCells_product image_iff intro!: bexI [of _ 0])

lemma blurCells_length:
  assumes "0 \<le> width" "0 \<le> height"
  shows "length (blurCells width height radius x y) \<le> nat (width * height)"
proof -
  let ?cs = "blurCells width height radius x y"
  have "set ?cs \<subseteq> {0..<width} \<times> {0..<height}"
    by (auto dest: blurCells_inside)
  then have "card (set ?cs) \<le> card ({0..<width} \<times> {0..<height})"
    by (intro card_mono) simp_all
  also have "\<dots> = nat width * nat height" by (simp add: card_cartesian_product)
  also have "\<dots> = nat (width * height)" using assms by (simp add: nat_mult_distrib)
  finally show ?thesis using blurCells_distinct [of width height radius x y]
    by (simp add: distinct_card)
qed

lemma wrap64_id: "0 \<le> x \<Longrightarrow> x < 2 ^ 63 \<Longrightarrow> wrap64 x = x"
  by (simp add: wrap64_def)

lemma cell_index:
  assumes W: "1 \<le> width" and H: "1 \<le> height"
    and len: "int (length src) = width * height * 4" "length src < 2 ^ 47"
    and c: "0 \<le> nx" "nx < width" "0 \<le> ny" "ny < height"
  shows "wrap64 ((ny * width + nx) * 4) = int (4 * nat (ny * width + nx))"
    and "4 * nat (ny * width + nx) + 3 < length src"
    and "0 \<le> ny * width + nx"
proof -
  define k where "k = ny * width + nx"
  have a: "0 \<le> ny * width" using c(3) W by simp
  have k0: "0 \<le> k" using a c(1) by (simp add: k_def)
  have "ny + 1 \<le> height" using c(4) by simp
  then have "(ny + 1) * width \<le> height * width" using W by (intro mult_right_mono) simp_all
  then have b: "k + 1 \<le> width * height" using c(2) by (simp add: algebra_simps k_def)
  then have lt: "k * 4 + 3 < int (length src)" using len(1) by simp
  have nk: "int (nat k) = k" using k0 by simp
  have "int (4 * nat k + 3) < int (length src)" using lt nk by simp
  then have i: "4 * nat k + 3 < length src" by (simp only: of_nat_less_iff)
  have "int (length src) < 2 ^ 47" using len(2) by (metis of_nat_less_iff of_nat_numeral of_nat_power)
  then have "k * 4 < 2 ^ 63" using lt by simp
  then have "wrap64 (k * 4) = k * 4"
    using k0 by (intro wrap64_id) simp_all
  then have w: "wrap64 (k * 4) = int (4 * nat k)" using nk by simp
  show "wrap64 ((ny * width + nx) * 4) = int (4 * nat (ny * width + nx))"
    using w by (simp only: k_def)
  show "4 * nat (ny * width + nx) + 3 < length src" using i by (simp only: k_def)
  show "0 \<le> ny * width + nx" using k0 by (simp only: k_def)
qed

lemma sum_list_le_255:
  assumes "\<forall>v\<in>set vs. v \<le> (255 :: nat)"
  shows "sum_list vs \<le> 255 * length vs"
  using assms by (induction vs) auto

lemma channelAt_le: "channelAt src width c cell \<le> 255"
  by (cases cell) (simp add: channelAt_def unat_le_255)

lemma blurPixel_mean:
  assumes n: "0 < n" "n < 2 ^ 46"
    and S: "S0 \<le> 255 * n" "S1 \<le> 255 * n" "S2 \<le> 255 * n" "S3 \<le> 255 * n"
  shows "blurPixel (of_nat S0, of_nat S1, of_nat S2, of_nat S3, int n)
           = (of_nat (S0 div n), of_nat (S1 div n), of_nat (S2 div n), of_nat (S3 div n))"
proof -
  have "n < 2 ^ 53" using n(2) by (rule less_trans) simp
  then have c: "fl64 (of_int (int n)) = of_nat n" using fl64_of_nat [of n] by simp
  have ch: "uint8_of_float64 (fdiv (of_nat S) (of_nat n)) = of_nat (S div n)" if "S \<le> 255 * n" for S
    unfolding uint8_of_float64_def fdiv_trunc [OF n that] by simp
  show ?thesis
    unfolding blurPixel_def by (simp only: prod.case Let_def c ch [OF S(1)] ch [OF S(2)] ch [OF S(3)] ch [OF S(4)])
qed

lemma cell_wrap:
  assumes "1 \<le> width" "1 \<le> height"
    "int (length src) = width * height * 4" "length src < 2 ^ 47"
    "0 \<le> nx" "nx < width" "0 \<le> ny" "ny < height"
  shows "wrap64 ((ny * width + nx) * 4) = (ny * width + nx) * 4"
  using cell_index(1,3) [OF assms] by simp

lemma blur_window_pixel:
  assumes W: "1 \<le> width" and H: "1 \<le> height"
    and len: "int (length src) = width * height * 4" "length src < 2 ^ 47"
    and p: "0 \<le> x" "x < width" "0 \<le> y" "y < height" and r: "0 \<le> radius"
  shows "\<exists>acc. blurSum src (blurWindow width height radius x y) (0, 0, 0, 0, 0) = Inr acc \<and>
           0 < snd (snd (snd (snd acc))) \<and>
           blurPixel acc =
             (of_nat (boxMean src width height radius x y 0),
              of_nat (boxMean src width height radius x y 1),
              of_nat (boxMean src width height radius x y 2),
              of_nat (boxMean src width height radius x y 3))"
proof -
  define cells where "cells = blurCells width height radius x y"
  define n where "n = length cells"
  define f where "f = (\<lambda>(nx, ny). wrap64 ((ny * width + nx) * 4))"
  define S where "S = (\<lambda>c. sum_list (map (channelAt src width c) cells))"
  have win: "blurWindow width height radius x y = map f cells"
    by (simp add: blurWindow_cells cells_def f_def)
  have inside: "0 \<le> nx \<and> nx < width \<and> 0 \<le> ny \<and> ny < height"
    if "(nx, ny) \<in> set cells" for nx ny
    using blurCells_inside [OF that [unfolded cells_def]] by simp
  have n0: "0 < n"
    using blurCells_centre [OF p r] unfolding n_def cells_def by (auto simp: length_greater_0_conv)
  have "n \<le> nat (width * height)"
    unfolding n_def cells_def using W H by (intro blurCells_length) simp_all
  moreover have "4 * nat (width * height) = length src" using len(1) by linarith
  ultimately have n45: "4 * n < 2 ^ 47" using len(2) by linarith
  then have n46: "n < 2 ^ 46" by simp
  have b53: "0 + 255 * length (map f cells) < (2::nat) ^ 53"
    using n45 by (simp add: n_def)
  have fcell: "0 \<le> f cell \<and> nat (f cell) + 3 < length src \<and>
      f cell = (snd cell * width + fst cell) * 4" if "cell \<in> set cells" for cell
  proof -
    obtain nx ny where c: "cell = (nx, ny)" by (cases cell)
    from inside [of nx ny] that c have i: "0 \<le> nx" "nx < width" "0 \<le> ny" "ny < height" by simp_all
    have e1: "f cell = int (4 * nat (ny * width + nx))"
      using cell_index(1) [OF W H len i] by (simp add: c f_def)
    have e2: "4 * nat (ny * width + nx) + 3 < length src"
      by (rule cell_index(2) [OF W H len i])
    have e3: "f cell = (ny * width + nx) * 4"
      using cell_wrap [OF W H len i] by (simp add: c f_def)
    have "0 \<le> f cell" unfolding e1 by (rule of_nat_0_le_iff)
    moreover have "nat (f cell) = 4 * nat (ny * width + nx)" unfolding e1 by (rule nat_int)
    ultimately show ?thesis using e2 e3 by (simp add: c)
  qed
  have rng: "\<forall>idx\<in>set (map f cells). 0 \<le> idx \<and> nat idx + 3 < length src"
  proof
    fix idx assume "idx \<in> set (map f cells)"
    then obtain cell where "cell \<in> set cells" "idx = f cell" by auto
    then show "0 \<le> idx \<and> nat idx + 3 < length src" using fcell [of cell] by blast
  qed
  have sums: "(\<Sum>idx\<leftarrow>map f cells. unat (src ! (nat idx + c))) = S c" for c
  proof -
    have "map (\<lambda>idx. unat (src ! (nat idx + c))) (map f cells) = map (channelAt src width c) cells"
      unfolding map_map
    proof (rule map_cong [OF refl])
      fix cell assume "cell \<in> set cells"
      then have "f cell = (snd cell * width + fst cell) * 4" using fcell by blast
      then show "((\<lambda>idx. unat (src ! (nat idx + c))) \<circ> f) cell = channelAt src width c cell"
        by (cases cell) (simp add: channelAt_def)
    qed
    then show ?thesis unfolding S_def by (rule arg_cong)
  qed
  have sum0: "(\<Sum>idx\<leftarrow>map f cells. unat (src ! nat idx)) = S 0"
    using sums [of 0] by simp
  have acc: "blurSum src (map f cells) (0, 0, 0, 0, 0)
      = Inr (of_nat (S 0), of_nat (S 1), of_nat (S 2), of_nat (S 3), int n)"
    using blurSum_exact [OF rng b53 b53 b53 b53, of 0]
    by (simp only: sums sum0 add_0 length_map n_def [symmetric]) simp
  have Sb: "S c \<le> 255 * n" for c
    unfolding S_def n_def using sum_list_le_255 [of "map (channelAt src width c) cells"]
    by (simp add: channelAt_le)
  have "blurPixel (of_nat (S 0), of_nat (S 1), of_nat (S 2), of_nat (S 3), int n)
      = (of_nat (S 0 div n), of_nat (S 1 div n), of_nat (S 2 div n), of_nat (S 3 div n))"
    by (rule blurPixel_mean [OF n0 n46 Sb Sb Sb Sb])
  moreover have "S c div n = boxMean src width height radius x y c" for c
    by (simp add: S_def n_def boxMean_def cells_def)
  ultimately show ?thesis using acc n0 unfolding win by simp
qed

lemma cell_inj:
  fixes width :: int
  assumes "0 \<le> x" "x < width" "0 \<le> x'" "x' < width" "0 \<le> y" "0 \<le> y'"
    "nat (y * width + x) = nat (y' * width + x')"
  shows "y = y' \<and> x = x'"
proof -
  have w: "0 < width" using assms(1,2) by simp
  have "0 \<le> y * width + x" "0 \<le> y' * width + x'" using assms w by simp_all
  then have e: "y * width + x = y' * width + x'" using assms(7) by simp
  have "(y * width + x) div width = y" "(y' * width + x') div width = y'"
    using assms w by (simp_all add: div_pos_pos_trivial)
  then have "y = y'" using e by simp
  then show ?thesis using e by simp
qed

lemma blurLoop_pixels:
  assumes W: "1 \<le> width" and H: "1 \<le> height"
    and len: "int (length src) = width * height * 4" "length src < 2 ^ 47"
    and r: "0 \<le> radius"
    and dst: "length dst = length src"
    and cs: "\<forall>(y, x)\<in>set cs. 0 \<le> x \<and> x < width \<and> 0 \<le> y \<and> y < height"
  shows "\<exists>out. blurLoop src width height radius cs dst = Inr out \<and> length out = length src \<and>
           (\<forall>y x. (y, x) \<in> set cs \<longrightarrow>
              pixelOf out (nat (y * width + x)) =
                (of_nat (boxMean src width height radius x y 0),
                 of_nat (boxMean src width height radius x y 1),
                 of_nat (boxMean src width height radius x y 2),
                 of_nat (boxMean src width height radius x y 3))) \<and>
           (\<forall>k. (\<forall>(y, x)\<in>set cs. k \<noteq> nat (y * width + x)) \<longrightarrow> pixelOf out k = pixelOf dst k)"
  using dst cs
proof (induction cs arbitrary: dst)
  case Nil
  then show ?case by simp
next
  case (Cons c cs)
  obtain y x where c: "c = (y, x)" by (cases c)
  let ?P = "\<lambda>x y. (of_nat (boxMean src width height radius x y 0) :: uint8,
                 of_nat (boxMean src width height radius x y 1) :: uint8,
                 of_nat (boxMean src width height radius x y 2) :: uint8,
                 of_nat (boxMean src width height radius x y 3) :: uint8)"
  have p: "0 \<le> x" "x < width" "0 \<le> y" "y < height" using Cons.prems(2) c by simp_all
  define k0 where "k0 = nat (y * width + x)"
  from blur_window_pixel [OF W H len p r]
  obtain acc where acc: "blurSum src (blurWindow width height radius x y) (0, 0, 0, 0, 0) = Inr acc"
      "0 < snd (snd (snd (snd acc)))" "blurPixel acc = ?P x y"
    by blast
  have idx: "wrap64 ((y * width + x) * 4) = int (4 * k0)" "4 * k0 + 3 < length dst"
    using cell_index(1,2) [OF W H len p] Cons.prems(1) by (simp_all add: k0_def)
  obtain dst' where s: "setPixel dst (4 * k0) (?P x y) = Some dst'"
    using idx(2) by (simp add: setPixel_def)
  note S = setPixel_Some [OF idx(2) s]
  have step: "blurLoop src width height radius (c # cs) dst = blurLoop src width height radius cs dst'"
    unfolding c blurLoop.simps acc(1) sum.case Let_def idx(1) acc(3)
    using acc(2) s by (simp only: if_True nat_int of_nat_less_0_iff if_False option.case)
  have l': "length dst' = length src" using S(1) Cons.prems(1) by simp
  have cs': "\<forall>(y, x)\<in>set cs. 0 \<le> x \<and> x < width \<and> 0 \<le> y \<and> y < height"
    using Cons.prems(2) by simp
  from Cons.IH [OF l' cs']
  obtain out where out: "blurLoop src width height radius cs dst' = Inr out" "length out = length src"
      "\<forall>y x. (y, x) \<in> set cs \<longrightarrow> pixelOf out (nat (y * width + x)) = ?P x y"
      "\<forall>k. (\<forall>(y, x)\<in>set cs. k \<noteq> nat (y * width + x)) \<longrightarrow> pixelOf out k = pixelOf dst' k"
    by blast
  have here: "pixelOf out k0 = ?P x y"
  proof (cases "(y, x) \<in> set cs")
    case True
    then show ?thesis using out(3) by (simp add: k0_def)
  next
    case False
    have "\<forall>(y', x')\<in>set cs. k0 \<noteq> nat (y' * width + x')"
    proof (clarify)
      fix y' x' assume in': "(y', x') \<in> set cs" and e: "k0 = nat (y' * width + x')"
      from cs' in' have p': "0 \<le> x'" "x' < width" "0 \<le> y'" by auto
      from cell_inj [OF p(1,2) p'(1,2) p(3) p'(3)] e have "y = y' \<and> x = x'" by (simp add: k0_def)
      with in' False show False by simp
    qed
    then have "pixelOf out k0 = pixelOf dst' k0" using out(4) by blast
    then show ?thesis using S(2) by simp
  qed
  have a: "pixelOf out (nat (y' * width + x')) = ?P x' y'" if "(y', x') \<in> set (c # cs)" for y' x'
    using that here out(3) by (auto simp: c k0_def)
  have b: "pixelOf out k = pixelOf dst k" if "\<forall>(y, x)\<in>set (c # cs). k \<noteq> nat (y * width + x)" for k
  proof -
    from that have "k \<noteq> k0" "\<forall>(y, x)\<in>set cs. k \<noteq> nat (y * width + x)" by (auto simp: c k0_def)
    then show ?thesis using out(4) S(3) by simp
  qed
  show ?case unfolding step using out(1,2) a b by blast
qed

text \<open>
  The conversion \<^verbatim>\<open>int(params.BlurRadius)\<close> truncates towards zero; it is at most 0 when the
  floor of the radius is.
\<close>

lemma radius_floor: "\<lfloor>f\<rfloor> \<le> 0 \<Longrightarrow> int_of_float64 f \<le> 0"
  by (auto simp: int_of_float64_def truncate_float64_def Let_def floor_le_iff ceiling_le_iff)

lemma ApplyBlur_radius_nonpositive:
  assumes "wrap64 (width * 4) \<noteq> 0" "\<lfloor>BlurRadius params\<rfloor> \<le> 0"
  shows "ApplyBlur src width params = Inr src"
  using assms by (simp add: ApplyBlur_def Let_def radius_floor)

lemma mean_bounds:
  fixes vs :: "nat list"
  assumes "vs \<noteq> []"
  shows "Min (set vs) \<le> sum_list vs div length vs" "sum_list vs div length vs \<le> Max (set vs)"
proof -
  have lo: "(\<forall>v\<in>set us. m \<le> v) \<Longrightarrow> m * length us \<le> sum_list us" for us and m :: nat
    by (induction us) auto
  have hi: "(\<forall>v\<in>set us. v \<le> M) \<Longrightarrow> sum_list us \<le> M * length us" for us and M :: nat
    by (induction us) auto
  have n: "0 < length vs" using assms by simp
  have "Min (set vs) * length vs \<le> sum_list vs" by (rule lo) simp
  then show "Min (set vs) \<le> sum_list vs div length vs"
    using n by (simp add: less_eq_div_iff_mult_less_eq)
  have "sum_list vs \<le> Max (set vs) * length vs" by (rule hi) simp
  then have "sum_list vs div length vs \<le> (Max (set vs) * length vs) div length vs"
    by (rule div_le_mono)
  then show "sum_list vs div length vs \<le> Max (set vs)" using n by simp
qed

lemma boxMean_bounds:
  assumes "0 \<le> x" "x < width" "0 \<le> y" "y < height" "0 \<le> radius"
  shows "Min (channelAt src width c ` set (blurCells width height radius x y))
           \<le> boxMean src width height radius x y c"
    and "boxMean src width height radius x y c
           \<le> Max (channelAt src width c ` set (blurCells width height radius x y))"
proof -
  let ?vs = "map (channelAt src width c) (blurCells width height radius x y)"
  have "blurCells width height radius x y \<noteq> []" using blurCells_centre [OF assms] by auto
  then have ne: "?vs \<noteq> []" by simp
  from mean_bounds [OF ne]
  show "Min (channelAt src width c ` set (blurCells width height radius x y))
           \<le> boxMean src width height radius x y c"
    and "boxMean src width height radius x y c
           \<le> Max (channelAt src width c ` set (blurCells width height radius x y))"
    by (simp_all add: boxMean_def)
qed

lemma boxMean_le: "boxMean src width height radius x y c \<le> 255"
proof (cases "blurCells width height radius x y = []")
  case True
  then show ?thesis by (simp add: boxMean_def)
next
  case False
  let ?vs = "map (channelAt src width c) (blurCells width height radius x y)"
  have "sum_list ?vs \<le> 255 * length ?vs"
    by (rule sum_list_le_255) (auto simp: channelAt_le)
  then have "sum_list ?vs div length ?vs \<le> (255 * length ?vs) div length ?vs"
    by (rule div_le_mono)
  then show ?thesis using False by (simp add: boxMean_def)
qed

lemma unat_boxMean:
  "unat (of_nat (boxMean src width height radius x y c) :: uint8) = boxMean src width height radius x y c"
  using boxMean_le [of src width height radius x y c] by (simp add: unat_of_nat)

lemma blur_coords:
  "(y, x) \<in> set [(y, x). y \<leftarrow> [0..height - 1], x \<leftarrow> [0..width - 1]]
     \<longleftrightarrow> 0 \<le> x \<and> x < width \<and> 0 \<le> y \<and> y < (height :: int)"
proof -
  have "(y, x) \<in> (\<Union>v\<in>A. Pair v ` B) \<longleftrightarrow> y \<in> A \<and> x \<in> B" for A B :: "int set"
    by blast
  then show ?thesis by simp linarith
qed

text \<open>
  For an image of \<open>width * height\<close> pixels, both at least 1, and a radius of at least 1, every
  channel of every output pixel is the truncated mean of that channel over the cells of
  the window that lie inside the image.
\<close>

lemma ApplyBlur_box_mean:
  assumes W: "1 \<le> width" and H: "1 \<le> height"
    and len: "int (length src) = width * height * 4" "length src < 2 ^ 47"
    and r: "1 \<le> int_of_float64 (BlurRadius params)"
  shows "\<exists>out. ApplyBlur src width params = Inr out \<and> length out = length src \<and>
           (\<forall>x y c. 0 \<le> x \<and> x < width \<and> 0 \<le> y \<and> y < height \<and> c < 4 \<longrightarrow>
              unat (out ! (nat ((y * width + x) * 4) + c))
                = boxMean src width height (int_of_float64 (BlurRadius params)) x y c)"
proof -
  define radius where "radius = int_of_float64 (BlurRadius params)"
  let ?cs = "[(y, x). y \<leftarrow> [0..height - 1], x \<leftarrow> [0..width - 1]]"
  have m4: "length src mod 4 = 0"
  proof -
    have "int (length src) mod 4 = 0" unfolding len(1) by simp
    then show ?thesis by presburger
  qed
  have li: "int (length src) < 2 ^ 47"
    using len(2) by (metis of_nat_less_iff of_nat_numeral of_nat_power)
  have "width * 1 \<le> width * height" using W H by (intro mult_left_mono) simp_all
  then have "width * 4 \<le> int (length src)" unfolding len(1) by simp
  then have w4: "wrap64 (width * 4) = width * 4" using W li by (intro wrap64_id) simp_all
  have hd: "go_div (int (length src)) (width * 4) = height"
  proof -
    have "width * height * 4 = height * (width * 4)" by simp
    then have "(width * height * 4) div (width * 4) = height" using W by simp
    moreover have "0 \<le> width * height * 4" using W H by simp
    ultimately show ?thesis using W unfolding len(1) go_div_def by simp
  qed
  have unfold: "ApplyBlur src width params
      = blurLoop src width height radius ?cs (replicate (length src) 0)"
    using m4 W H r unfolding ApplyBlur_def w4 hd Let_def radius_def by simp
  have cs: "\<forall>(y, x)\<in>set ?cs. 0 \<le> x \<and> x < width \<and> 0 \<le> y \<and> y < height"
    by auto
  have r0: "0 \<le> radius" using r by (simp add: radius_def)
  from blurLoop_pixels [OF W H len r0 _ cs, of "replicate (length src) 0"]
  obtain out where out: "blurLoop src width height radius ?cs (replicate (length src) 0) = Inr out"
      "length out = length src"
      "\<forall>y x. (y, x) \<in> set ?cs \<longrightarrow>
              pixelOf out (nat (y * width + x)) =
                (of_nat (boxMean src width height radius x y 0),
                 of_nat (boxMean src width height radius x y 1),
                 of_nat (boxMean src width height radius x y 2),
                 of_nat (boxMean src width height radius x y 3))"
    by auto
  have px: "unat (out ! (nat ((y * width + x) * 4) + c)) = boxMean src width height radius x y c"
    if p: "0 \<le> x" "x < width" "0 \<le> y" "y < height" and c: "c < 4" for x y c
  proof -
    have "(y, x) \<in> set ?cs" using p by (simp only: blur_coords)
    then have e: "pixelOf out (nat (y * width + x)) =
                (of_nat (boxMean src width height radius x y 0),
                 of_nat (boxMean src width height radius x y 1),
                 of_nat (boxMean src width height radius x y 2),
                 of_nat (boxMean src width height radius x y 3))"
      using out(3) by blast
    have "0 \<le> y * width + x" using p W by simp
    then have i: "nat ((y * width + x) * 4) = 4 * nat (y * width + x)" by (simp add: nat_mult_distrib)
    from c consider "c = 0" | "c = 1" | "c = 2" | "c = 3" by linarith
    then show ?thesis
    proof cases
      case 1 then show ?thesis unfolding i using e unat_boxMean [of src width height radius x y 0]
        by (simp add: pixelOf_def)
    next
      case 2 then show ?thesis unfolding i using e unat_boxMean [of src width height radius x y 1]
        by (simp add: pixelOf_def)
    next
      case 3 then show ?thesis unfolding i using e unat_boxMean [of src width height radius x y 2]
        by (simp add: pixelOf_def)
    next
      case 4 then show ?thesis unfolding i using e unat_boxMean [of src width height radius x y 3]
        by (simp add: pixelOf_def)
    qed
  qed
  show ?thesis
    unfolding unfold radius_def [symmetric] using out(1,2) px by blast
qed

lemma boxMean_example:
  "boxMean [10, 20, 30, 40, 50, 60, 70, 80] 2 1 1 0 0 0 = 30"
  "boxMean [10, 20, 30, 40, 50, 60, 70, 80] 2 1 1 1 0 3 = 60"
  by code_simp+

lemma ApplyBlur_box_mean_example:
  "\<exists>out. ApplyBlur [10, 20, 30, 40, 50, 60, 70, 80] 2
            \<lparr>BlurRadius = 1, Brightness = 1, Contrast = 1, Quality = 90\<rparr> = Inr out \<and>
         length out = 8 \<and> unat (out ! 0) = 30 \<and> unat (out ! 7) = 60"
proof -
  let ?src = "[10, 20, 30, 40, 50, 60, 70, 80] :: uint8 list"
  let ?p = "\<lparr>BlurRadius = 1, Brightness = 1, Contrast = 1, Quality = 90\<rparr>"
  have r: "int_of_float64 (BlurRadius ?p) = 1"
    by (simp add: int_of_float64_def truncate_float64_def)
  from ApplyBlur_box_mean [of 2 1 ?src ?p]
  obtain out where out: "ApplyBlur ?src 2 ?p = Inr out" "length out = length ?src"
      "\<forall>x y c. 0 \<le> x \<and> x < 2 \<and> 0 \<le> y \<and> y < 1 \<and> c < 4 \<longrightarrow>
              unat (out ! (nat ((y * 2 + x) * 4) + c)) = boxMean ?src 2 1 1 x y c"
    unfolding r by auto
  from out(3) have "unat (out ! (nat ((0 * 2 + 0) * 4) + 0)) = boxMean ?src 2 1 1 0 0 0"
    by (intro out(3) [rule_format]) simp
  then have a: "unat (out ! 0) = 30" by (simp add: boxMean_example)
  have "unat (out ! (nat ((0 * 2 + 1) * 4) + 3)) = boxMean ?src 2 1 1 1 0 3"
    by (intro out(3) [rule_format]) simp
  then have b: "unat (out ! 7) = 60" by (simp add: boxMean_example)
  show ?thesis using out(1,2) a b by simp
qed

text \<open>
  C6. On the buffer of an image of width 0 (an empty buffer, whatever the height),
  \<^verbatim>\<open>ApplyBlur\<close> does not return the input, whatever the radius: the division
  \<^verbatim>\<open>len(src) / (width * 4)\<close> that recovers the height comes before the guard on the height
  and panics with "integer divide by zero". With a width of at least 1 and a buffer of
  fewer than \<open>2 ^ 47\<close> bytes the filter behaves as described, by the lemmas above:
  \<open>ApplyBlur_radius_nonpositive\<close> for a radius whose floor is at most 0, and
  \<open>ApplyBlur_box_mean\<close> with \<open>boxMean_bounds\<close> for a radius from 1 on.
\<close>

theorem ApplyBlur_zero_width_panics: "ApplyBlur [] 0 params = Inl DivideByZero"
  by (simp add: ApplyBlur_def wrap64_def)

end
